theory Spec2Isabelle
  imports Main "HOL-Library.Word"
begin

unbundle bit_operations_syntax

section \<open>Data model of 9cc.c\<close>

text \<open>
  The input program \<open>user_input\<close> is a C string taken from \<open>argv[1]\<close>: the bytes before
  the terminating NUL, none of which is NUL itself. It is modelled as a \<open>string\<close>.
  A \<open>char *\<close> into that string (the scan pointer \<open>p\<close>, the field \<open>str\<close> of a token,
  the argument \<open>loc\<close> of \<open>error_at\<close>) is modelled as the suffix of the input that
  starts where the pointer points: \<open>p[0]\<close> is the head of the suffix (NUL when the
  suffix is empty), \<open>p++\<close> is its tail, and \<open>loc - user_input\<close> is the difference of
  the two lengths.
\<close>

datatype TokenKind = TK_RESERVED | TK_NUM | TK_EOF

text \<open>The C type \<open>int\<close> of the target (x86-64, LP64) has 32 bits, \<open>long\<close> has 64.\<close>

type_synonym c_int = "32 word"

text \<open>
  \<open>struct Token\<close>. The field \<open>next\<close> is the list structure: a token sequence is a
  \<open>Token list\<close>, and the NULL pointer that ends the chain is the empty list.
\<close>

record Token =
  kind :: TokenKind
  val :: c_int
  str :: string

text \<open>
  The three format strings passed to \<open>error_at\<close>: in \<open>tokenize\<close> (cannot tokenize),
  in \<open>expect\<close> ("is not '%c'", with the expected character) and in \<open>expect_number\<close>
  ("is not a number").
\<close>

datatype message = UnrecognizedCharacter | ExpectedToken char | ExpectedNumber

text \<open>
  A run that does not return: a call \<open>error_at(loc, fmt, ...)\<close>, which ends in
  \<open>exit(1)\<close>, or a read through the NULL pointer.
\<close>

datatype abort = error_at string message | null_deref

section \<open>C library functions used by the lexer\<close>

text \<open>
  \<open>isspace\<close>, \<open>isdigit\<close> and \<open>strtol\<close> are not code of the repository; they are
  modelled after the C standard, in the "C" locale (the program never calls
  \<open>setlocale\<close>): white space is space, \<open>\t\<close>, \<open>\n\<close>, \<open>\v\<close>, \<open>\f\<close> and \<open>\r\<close>.
  A byte above 127 is neither (the standard leaves the call undefined for the
  negative \<open>char\<close> it is on x86-64; the C library of the platform answers false).
\<close>

definition isspace :: "char \<Rightarrow> bool" where
  "isspace c = (c \<in> set [CHR 0x20, CHR 0x09, CHR 0x0A, CHR 0x0B, CHR 0x0C, CHR 0x0D])"

definition isdigit :: "char \<Rightarrow> bool" where
  "isdigit c = (c \<in> set ''0123456789'')"

definition digit_val :: "char \<Rightarrow> int" where
  "digit_val c = int (of_char c) - 48"

text \<open>The decimal number a digit string denotes.\<close>

definition decimal :: "string \<Rightarrow> int" where
  "decimal ds = foldl (\<lambda>a c. 10 * a + digit_val c) 0 ds"

definition LONG_MAX :: int where
  "LONG_MAX = 2 ^ 63 - 1"

definition LONG_MIN :: int where
  "LONG_MIN = - (2 ^ 63)"

text \<open>
  \<open>strtol(p, &p, 10)\<close>: skips white space, reads an optional sign and the longest run
  of decimal digits; returns the value, clamped to the range of \<open>long\<close>, and the
  pointer past the run. With no digit at all the value is 0 and the pointer is the
  one given.
\<close>

definition strtol :: "string \<Rightarrow> int \<times> string" where
  "strtol p =
     (let s = dropWhile isspace p;
          neg = (case s of [] \<Rightarrow> False | c # _ \<Rightarrow> c = CHR ''-'');
          t = (case s of [] \<Rightarrow> [] | c # r \<Rightarrow> if c = CHR ''-'' \<or> c = CHR ''+'' then r else s);
          ds = takeWhile isdigit t;
          v = (if neg then - decimal ds else decimal ds)
      in if ds = [] then (0, p)
         else (max LONG_MIN (min LONG_MAX v), dropWhile isdigit t))"

section \<open>Lexer\<close>

text \<open>\<open>new_token\<close>: \<open>calloc\<close> zeroes the fields that are not set.\<close>

definition new_token :: "TokenKind \<Rightarrow> string \<Rightarrow> Token" where
  "new_token k s = \<lparr>kind = k, val = 0, str = s\<rparr>"

text \<open>Appending to the list under construction, unless the scan has aborted.\<close>

definition link :: "Token \<Rightarrow> abort + Token list \<Rightarrow> abort + Token list" where
  "link tok r = (case r of Inl e \<Rightarrow> Inl e | Inr toks \<Rightarrow> Inr (tok # toks))"

lemma digit_val_nonneg: "isdigit c \<Longrightarrow> 0 \<le> digit_val c"
  by (auto simp: isdigit_def digit_val_def)

lemma foldl_decimal_nonneg:
  "list_all isdigit ds \<Longrightarrow> 0 \<le> a \<Longrightarrow> 0 \<le> foldl (\<lambda>a c. 10 * a + digit_val c) a ds"
proof (induction ds arbitrary: a)
  case Nil
  then show ?case by simp
next
  case (Cons d ds)
  from Cons.prems have "0 \<le> 10 * a + digit_val d"
    using digit_val_nonneg [of d] by simp
  with Cons show ?case by simp
qed

lemma decimal_nonneg: "list_all isdigit ds \<Longrightarrow> 0 \<le> decimal ds"
  by (simp add: decimal_def foldl_decimal_nonneg)

lemma list_all_takeWhile: "list_all P (takeWhile P xs)"
  by (induction xs) auto

lemma strtol_digit:
  assumes "isdigit c"
  shows "strtol (c # cs) =
           (min LONG_MAX (decimal (takeWhile isdigit (c # cs))), dropWhile isdigit cs)"
proof -
  have "\<not> isspace c" "c \<noteq> CHR ''-''" "c \<noteq> CHR ''+''"
    using assms by (auto simp: isdigit_def isspace_def)
  moreover have "0 \<le> decimal (takeWhile isdigit (c # cs))"
    by (rule decimal_nonneg) (rule list_all_takeWhile)
  ultimately show ?thesis
    using assms by (simp add: strtol_def Let_def LONG_MIN_def LONG_MAX_def max_def min_def)
qed

text \<open>
  The loop of \<open>tokenize\<close>, with the scan pointer \<open>p\<close> as its argument. The result is
  the list from \<open>head.next\<close> on.
\<close>

function tokenize_loop :: "string \<Rightarrow> abort + Token list" where
  "tokenize_loop [] = Inr [new_token TK_EOF []]"
| "tokenize_loop (c # cs) =
     (if isspace c then tokenize_loop cs
      else if c \<in> set ''+-*/()'' then link (new_token TK_RESERVED (c # cs)) (tokenize_loop cs)
      else if isdigit c then
        link ((new_token TK_NUM (c # cs))\<lparr>val := word_of_int (fst (strtol (c # cs)))\<rparr>)
             (tokenize_loop (snd (strtol (c # cs))))
      else Inl (error_at (c # cs) UnrecognizedCharacter))"
  by pat_completeness auto
termination tokenize_loop
proof (relation "measure length")
  fix c cs
  assume "isdigit c"
  then have "snd (strtol (c # cs)) = dropWhile isdigit cs"
    by (simp add: strtol_digit)
  then show "(snd (strtol (c # cs)), c # cs) \<in> measure length"
    using length_dropWhile_le [of isdigit cs] by simp
qed simp_all

definition tokenize :: "string \<Rightarrow> abort + Token list" where
  "tokenize user_input = tokenize_loop user_input"


section \<open>Abstract syntax tree\<close>

text \<open>
  \<open>struct Node\<close> with its tag \<open>NodeKind\<close>. The parser builds a node only through
  \<open>new_num\<close> (kind \<open>ND_NUM\<close>, the field \<open>val\<close> set, no children) and \<open>new_binary\<close>
  (one of the four operator kinds, both children set), so the two functions are the
  two constructors of the tree and \<open>NodeKind\<close> keeps the operator kinds.
\<close>

datatype NodeKind = ND_ADD | ND_SUB | ND_MUL | ND_DIV

datatype Node = new_num c_int | new_binary NodeKind Node Node

section \<open>Parser\<close>

text \<open>
  The global \<open>token\<close> is the cursor: the list of the tokens from the current one on.
  Every function takes the cursor and returns the new one with its result.
  \<open>token->str[0]\<close> is the character the token points at.
\<close>

definition str0 :: "Token \<Rightarrow> char" where
  "str0 tok = (case str tok of [] \<Rightarrow> CHR 0x00 | c # _ \<Rightarrow> c)"

fun consume :: "char \<Rightarrow> Token list \<Rightarrow> abort + bool \<times> Token list" where
  "consume op [] = Inl null_deref"
| "consume op (tok # next) =
     (if kind tok \<noteq> TK_RESERVED \<or> str0 tok \<noteq> op then Inr (False, tok # next)
      else Inr (True, next))"

fun expect :: "char \<Rightarrow> Token list \<Rightarrow> abort + Token list" where
  "expect op [] = Inl null_deref"
| "expect op (tok # next) =
     (if kind tok \<noteq> TK_RESERVED \<or> str0 tok \<noteq> op
      then Inl (error_at (str tok) (ExpectedToken op))
      else Inr next)"

fun expect_number :: "Token list \<Rightarrow> abort + c_int \<times> Token list" where
  "expect_number [] = Inl null_deref"
| "expect_number (tok # next) =
     (if kind tok \<noteq> TK_NUM then Inl (error_at (str tok) ExpectedNumber)
      else Inr (val tok, next))"

fun at_eof :: "Token list \<Rightarrow> abort + bool" where
  "at_eof [] = Inl null_deref"
| "at_eof (tok # next) = Inr (kind tok = TK_EOF)"

text \<open>
  \<open>expr\<close>, \<open>mul\<close> and \<open>primary\<close>, with the two \<open>while (true)\<close> loops as the functions
  \<open>expr_loop\<close> and \<open>mul_loop\<close> of the node built so far and the cursor.
\<close>

function (domintros) expr :: "Token list \<Rightarrow> abort + Node \<times> Token list"
  and expr_loop :: "Node \<Rightarrow> Token list \<Rightarrow> abort + Node \<times> Token list"
  and mul :: "Token list \<Rightarrow> abort + Node \<times> Token list"
  and mul_loop :: "Node \<Rightarrow> Token list \<Rightarrow> abort + Node \<times> Token list"
  and primary :: "Token list \<Rightarrow> abort + Node \<times> Token list"
where
  "expr token =
     (case mul token of Inl e \<Rightarrow> Inl e | Inr (node, token') \<Rightarrow> expr_loop node token')"
| "expr_loop node token =
     (case consume CHR ''+'' token of
        Inl e \<Rightarrow> Inl e
      | Inr (True, token1) \<Rightarrow>
          (case mul token1 of Inl e \<Rightarrow> Inl e
           | Inr (rhs, token2) \<Rightarrow> expr_loop (new_binary ND_ADD node rhs) token2)
      | Inr (False, _) \<Rightarrow>
          (case consume CHR ''-'' token of
             Inl e \<Rightarrow> Inl e
           | Inr (True, token1) \<Rightarrow>
               (case mul token1 of Inl e \<Rightarrow> Inl e
                | Inr (rhs, token2) \<Rightarrow> expr_loop (new_binary ND_SUB node rhs) token2)
           | Inr (False, _) \<Rightarrow> Inr (node, token)))"
| "mul token =
     (case primary token of Inl e \<Rightarrow> Inl e | Inr (node, token') \<Rightarrow> mul_loop node token')"
| "mul_loop node token =
     (case consume CHR ''*'' token of
        Inl e \<Rightarrow> Inl e
      | Inr (True, token1) \<Rightarrow>
          (case primary token1 of Inl e \<Rightarrow> Inl e
           | Inr (rhs, token2) \<Rightarrow> mul_loop (new_binary ND_MUL node rhs) token2)
      | Inr (False, _) \<Rightarrow>
          (case consume CHR ''/'' token of
             Inl e \<Rightarrow> Inl e
           | Inr (True, token1) \<Rightarrow>
               (case primary token1 of Inl e \<Rightarrow> Inl e
                | Inr (rhs, token2) \<Rightarrow> mul_loop (new_binary ND_DIV node rhs) token2)
           | Inr (False, _) \<Rightarrow> Inr (node, token)))"
| "primary token =
     (case consume CHR ''('' token of
        Inl e \<Rightarrow> Inl e
      | Inr (True, token1) \<Rightarrow>
          (case expr token1 of Inl e \<Rightarrow> Inl e
           | Inr (node, token2) \<Rightarrow>
               (case expect CHR '')'' token2 of Inl e \<Rightarrow> Inl e
                | Inr token3 \<Rightarrow> Inr (node, token3)))
      | Inr (False, _) \<Rightarrow>
          (case expect_number token of Inl e \<Rightarrow> Inl e
           | Inr (v, token1) \<Rightarrow> Inr (new_num v, token1)))"
  by pat_completeness auto

subsection \<open>Termination of the parser\<close>

text \<open>
  A call that returns leaves a cursor that is a shorter list: strictly shorter for
  \<open>expr\<close>, \<open>mul\<close> and \<open>primary\<close>, not longer for the two loops. It is proved first on
  the domain of the functions, where it is what the termination proof needs for the
  calls whose cursor comes out of another call.
\<close>

text \<open>The measure of a call: the length of its cursor, then the function called.\<close>

definition parse_measure ::
  "(Token list + Node \<times> Token list) + Token list + Node \<times> Token list + Token list \<Rightarrow> nat" where
  "parse_measure x =
     (case x of
        Inl (Inl token) \<Rightarrow> 3 * length token + 2
      | Inl (Inr (node, token)) \<Rightarrow> 3 * length token
      | Inr (Inl token) \<Rightarrow> 3 * length token + 1
      | Inr (Inr (Inl (node, token))) \<Rightarrow> 3 * length token
      | Inr (Inr (Inr token)) \<Rightarrow> 3 * length token)"

lemma consume_True: "consume op token = Inr (True, token') \<Longrightarrow> length token' < length token"
  by (cases token) (auto split: if_splits)

lemma expect_length: "expect op token = Inr token' \<Longrightarrow> length token' < length token"
  by (cases token) (auto split: if_splits)

lemma expect_number_length:
  "expect_number token = Inr (v, token') \<Longrightarrow> length token' < length token"
  by (cases token) (auto split: if_splits)

lemma parse_length_dom:
  "expr_expr_loop_mul_mul_loop_primary_dom (Inl (Inl t1)) \<Longrightarrow>
     expr t1 = Inr (n1, r1) \<Longrightarrow> length r1 < length t1"
  "expr_expr_loop_mul_mul_loop_primary_dom (Inl (Inr (a2, t2))) \<Longrightarrow>
     expr_loop a2 t2 = Inr (n2, r2) \<Longrightarrow> length r2 \<le> length t2"
  "expr_expr_loop_mul_mul_loop_primary_dom (Inr (Inl t3)) \<Longrightarrow>
     mul t3 = Inr (n3, r3) \<Longrightarrow> length r3 < length t3"
  "expr_expr_loop_mul_mul_loop_primary_dom (Inr (Inr (Inl (a4, t4)))) \<Longrightarrow>
     mul_loop a4 t4 = Inr (n4, r4) \<Longrightarrow> length r4 \<le> length t4"
  "expr_expr_loop_mul_mul_loop_primary_dom (Inr (Inr (Inr t5))) \<Longrightarrow>
     primary t5 = Inr (n5, r5) \<Longrightarrow> length r5 < length t5"
proof (induction t1 and a2 t2 and t3 and a4 t4 and t5
    arbitrary: n1 r1 and n2 r2 and n3 r3 and n4 r4 and n5 r5
    rule: expr_expr_loop_mul_mul_loop_primary.pinduct)
  case (1 token)
  from "1.prems" "1.hyps" obtain node token' where
    m: "mul token = Inr (node, token')" and l: "expr_loop node token' = Inr (n1, r1)"
    by (auto simp: expr.psimps split: sum.splits prod.splits)
  from "1.IH"(1) [OF m] "1.IH"(2) [OF m refl l] show ?case by simp
next
  case (2 node token)
  note dom = "2.hyps" and res = "2.prems"
  show ?case
  proof (cases "consume CHR ''+'' token")
    case (Inl e)
    with dom res show ?thesis by (simp add: expr_loop.psimps)
  next
    case (Inr b)
    note c1 = Inr
    obtain x y where b: "(x, y) = b" by (cases b) auto
    show ?thesis
    proof (cases x)
      case True
      then have xT: "x = True" by simp
      from dom res c1 b xT obtain rhs token2 where
        m: "mul y = Inr (rhs, token2)"
        and l: "expr_loop (new_binary ND_ADD node rhs) token2 = Inr (n2, r2)"
        by (auto simp: expr_loop.psimps split: sum.splits prod.splits)
      have "length token2 < length y"
        by (rule "2.IH"(1) [OF c1 b xT m])
      moreover have "length r2 \<le> length token2"
        by (rule "2.IH"(2) [OF c1 b xT m refl l])
      moreover have "length y < length token"
        using c1 b xT by (auto intro: consume_True)
      ultimately show ?thesis by simp
    next
      case False
      then have xF: "x = False" by simp
      show ?thesis
      proof (cases "consume CHR ''-'' token")
        case (Inl e)
        with dom res c1 b xF show ?thesis
          by (auto simp: expr_loop.psimps)
      next
        case (Inr b')
        note c2 = Inr
        obtain x' y' where b': "(x', y') = b'" by (cases b') auto
        show ?thesis
        proof (cases x')
          case True
          then have xT': "x' = True" by simp
          from dom res c1 b xF c2 b' xT' obtain rhs token2 where
            m: "mul y' = Inr (rhs, token2)"
            and l: "expr_loop (new_binary ND_SUB node rhs) token2 = Inr (n2, r2)"
            by (auto simp: expr_loop.psimps split: sum.splits prod.splits)
          have "length token2 < length y'"
            by (rule "2.IH"(3) [OF c1 b xF c2 b' xT' m])
          moreover have "length r2 \<le> length token2"
            by (rule "2.IH"(4) [OF c1 b xF c2 b' xT' m refl l])
          moreover have "length y' < length token"
            using c2 b' xT' by (auto intro: consume_True)
          ultimately show ?thesis by simp
        next
          case False
          with dom res c1 b xF c2 b' show ?thesis
            by (auto simp: expr_loop.psimps)
        qed
      qed
    qed
  qed
next
  case (3 token)
  from "3.prems" "3.hyps" obtain node token' where
    m: "primary token = Inr (node, token')" and l: "mul_loop node token' = Inr (n3, r3)"
    by (auto simp: mul.psimps split: sum.splits prod.splits)
  from "3.IH"(1) [OF m] "3.IH"(2) [OF m refl l] show ?case by simp
next
  case (4 node token)
  note dom = "4.hyps" and res = "4.prems"
  show ?case
  proof (cases "consume CHR ''*'' token")
    case (Inl e)
    with dom res show ?thesis by (simp add: mul_loop.psimps)
  next
    case (Inr b)
    note c1 = Inr
    obtain x y where b: "(x, y) = b" by (cases b) auto
    show ?thesis
    proof (cases x)
      case True
      then have xT: "x = True" by simp
      from dom res c1 b xT obtain rhs token2 where
        m: "primary y = Inr (rhs, token2)"
        and l: "mul_loop (new_binary ND_MUL node rhs) token2 = Inr (n4, r4)"
        by (auto simp: mul_loop.psimps split: sum.splits prod.splits)
      have "length token2 < length y"
        by (rule "4.IH"(1) [OF c1 b xT m])
      moreover have "length r4 \<le> length token2"
        by (rule "4.IH"(2) [OF c1 b xT m refl l])
      moreover have "length y < length token"
        using c1 b xT by (auto intro: consume_True)
      ultimately show ?thesis by simp
    next
      case False
      then have xF: "x = False" by simp
      show ?thesis
      proof (cases "consume CHR ''/'' token")
        case (Inl e)
        with dom res c1 b xF show ?thesis
          by (auto simp: mul_loop.psimps)
      next
        case (Inr b')
        note c2 = Inr
        obtain x' y' where b': "(x', y') = b'" by (cases b') auto
        show ?thesis
        proof (cases x')
          case True
          then have xT': "x' = True" by simp
          from dom res c1 b xF c2 b' xT' obtain rhs token2 where
            m: "primary y' = Inr (rhs, token2)"
            and l: "mul_loop (new_binary ND_DIV node rhs) token2 = Inr (n4, r4)"
            by (auto simp: mul_loop.psimps split: sum.splits prod.splits)
          have "length token2 < length y'"
            by (rule "4.IH"(3) [OF c1 b xF c2 b' xT' m])
          moreover have "length r4 \<le> length token2"
            by (rule "4.IH"(4) [OF c1 b xF c2 b' xT' m refl l])
          moreover have "length y' < length token"
            using c2 b' xT' by (auto intro: consume_True)
          ultimately show ?thesis by simp
        next
          case False
          with dom res c1 b xF c2 b' show ?thesis
            by (auto simp: mul_loop.psimps)
        qed
      qed
    qed
  qed
next
  case (5 token)
  note dom = "5.hyps" and res = "5.prems"
  show ?case
  proof (cases "consume CHR ''('' token")
    case (Inl e)
    with dom res show ?thesis by (simp add: primary.psimps)
  next
    case (Inr b)
    note c1 = Inr
    obtain x y where b: "(x, y) = b" by (cases b) auto
    show ?thesis
    proof (cases x)
      case True
      then have xT: "x = True" by simp
      from dom res c1 b xT obtain token2 where
        m: "expr y = Inr (n5, token2)" and l: "expect CHR '')'' token2 = Inr r5"
        by (auto simp: primary.psimps split: sum.splits prod.splits)
      have "length token2 < length y"
        by (rule "5.IH" [OF c1 b xT m])
      moreover have "length r5 < length token2"
        using l by (rule expect_length)
      moreover have "length y < length token"
        using c1 b xT by (auto intro: consume_True)
      ultimately show ?thesis by simp
    next
      case False
      with dom res c1 b obtain v where "expect_number token = Inr (v, r5)"
        by (auto simp: primary.psimps split: sum.splits prod.splits)
      then show ?thesis by (rule expect_number_length)
    qed
  qed
qed

text \<open>
  Every call of the five functions is in their domain: the chain of calls below it is
  finite, since a call is made on a shorter cursor, or on the same cursor from
  \<open>expr\<close> to \<open>mul\<close> and from \<open>mul\<close> to \<open>primary\<close>.
\<close>

lemma parser_calls_terminate: "expr_expr_loop_mul_mul_loop_primary_dom x"
proof -
  have "All expr_expr_loop_mul_mul_loop_primary_dom"
  proof (relation "measure parse_measure")
    show "wf (measure parse_measure)" by simp
  qed (auto simp: parse_measure_def dest!: consume_True dest: parse_length_dom)
  then show ?thesis ..
qed

termination expr
  using parser_calls_terminate by blast

lemmas parse_length =
  parse_length_dom(1) [OF parser_calls_terminate]
  parse_length_dom(2) [OF parser_calls_terminate]
  parse_length_dom(3) [OF parser_calls_terminate]
  parse_length_dom(4) [OF parser_calls_terminate]
  parse_length_dom(5) [OF parser_calls_terminate]

declare expr.simps [simp del] expr_loop.simps [simp del] mul.simps [simp del]
  mul_loop.simps [simp del] primary.simps [simp del]

section \<open>Code generator\<close>

text \<open>
  Every \<open>printf\<close> of \<open>gen\<close> and of the end of \<open>main\<close> writes one line of assembly, one
  instruction. \<open>gen\<close> is modelled as the list of the instructions in the order they
  are written, and \<open>asm\<close> gives the line of text of each.
\<close>

datatype reg = RAX | RDI

datatype instr =
  Push_imm c_int
  | Push reg
  | Pop reg
  | Add reg reg
  | Sub reg reg
  | Imul reg reg
  | Cqo
  | Idiv reg
  | Ret

fun gen :: "Node \<Rightarrow> instr list" where
  "gen (new_num v) = [Push_imm v]"
| "gen (new_binary k lhs rhs) =
     gen lhs @ gen rhs @ [Pop RDI, Pop RAX] @
     (case k of
        ND_ADD \<Rightarrow> [Add RAX RDI]
      | ND_SUB \<Rightarrow> [Sub RAX RDI]
      | ND_MUL \<Rightarrow> [Imul RAX RDI]
      | ND_DIV \<Rightarrow> [Cqo, Idiv RDI]) @
     [Push RAX]"

text \<open>The conversion \<open>%d\<close> of \<open>printf\<close>: a signed decimal number.\<close>

fun show_nat :: "nat \<Rightarrow> string" where
  "show_nat n =
     (if n < 10 then [char_of (48 + n)]
      else show_nat (n div 10) @ [char_of (48 + n mod 10)])"

definition show_int :: "int \<Rightarrow> string" where
  "show_int i = (if i < 0 then CHR ''-'' # show_nat (nat (- i)) else show_nat (nat i))"

fun reg_name :: "reg \<Rightarrow> string" where
  "reg_name RAX = ''rax''"
| "reg_name RDI = ''rdi''"

definition line :: "string \<Rightarrow> string" where
  "line s = s @ [CHR 0x0A]"

fun asm :: "instr \<Rightarrow> string" where
  "asm (Push_imm v) = line (''    push '' @ show_int (sint v))"
| "asm (Push r) = line (''    push '' @ reg_name r)"
| "asm (Pop r) = line (''    pop '' @ reg_name r)"
| "asm (Add r1 r2) = line (''    add '' @ reg_name r1 @ '', '' @ reg_name r2)"
| "asm (Sub r1 r2) = line (''    sub '' @ reg_name r1 @ '', '' @ reg_name r2)"
| "asm (Imul r1 r2) = line (''    imul '' @ reg_name r1 @ '', '' @ reg_name r2)"
| "asm Cqo = line ''    cqo''"
| "asm (Idiv r) = line (''    idiv '' @ reg_name r)"
| "asm Ret = line (CHR 0x09 # ''ret '')"

section \<open>The program\<close>

text \<open>
  What \<open>error_at\<close> writes to the standard error stream: the input, then a line with
  \<open>pos\<close> spaces, a caret and the message, where \<open>pos = loc - user_input\<close>. The usage
  message of \<open>main\<close> is the other diagnostic.
\<close>

datatype diagnostic = usage | report string nat message

definition pos :: "string \<Rightarrow> string \<Rightarrow> nat" where
  "pos user_input loc = length user_input - length loc"

text \<open>
  A run of the program ends with an exit status, what it wrote to the standard
  output and its diagnostic, or is killed when it reads through NULL.
\<close>

datatype outcome = Exited int string "diagnostic option" | Killed

fun die :: "string \<Rightarrow> abort \<Rightarrow> outcome" where
  "die user_input (error_at loc msg) = Exited 1 [] (Some (report user_input (pos user_input loc) msg))"
| "die user_input null_deref = Killed"

text \<open>The body of the function \<open>main\<close> that the compiler writes for a tree.\<close>

definition body :: "Node \<Rightarrow> instr list" where
  "body node = gen node @ [Pop RAX, Ret]"

definition assembly :: "Node \<Rightarrow> string" where
  "assembly node =
     line ''.intel_syntax noprefix'' @ line ''.global main'' @ line ''main:'' @
     concat (map asm (body node))"

text \<open>\<open>main\<close>, given \<open>argv\<close> (so \<open>argc\<close> is its length).\<close>

definition main :: "string list \<Rightarrow> outcome" where
  "main argv =
     (if length argv \<noteq> 2 then Exited 1 [] (Some usage)
      else
        let user_input = argv ! 1 in
        case tokenize user_input of
          Inl a \<Rightarrow> die user_input a
        | Inr token \<Rightarrow>
            (case expr token of
               Inl a \<Rightarrow> die user_input a
             | Inr (node, _) \<Rightarrow> Exited 0 (assembly node) None))"

section \<open>The target machine\<close>

text \<open>
  The meaning of the instructions the compiler writes, after the x86-64 instruction
  set: 64-bit registers, a stack of 64-bit values. The stack of the model holds the
  values above the return address of the function, so \<open>stack_underflow\<close> is a \<open>pop\<close>
  that would take a value the code did not push, and \<open>ret\<close> finds the return address
  only when the stack is empty (\<open>bad_return\<close> otherwise).
  \<open>idiv\<close> divides the 128-bit signed number in \<open>rdx:rax\<close>, truncates the quotient
  toward zero and raises the divide error on a zero divisor or a quotient that does
  not fit 64 bits.
\<close>

record machine =
  rax :: "64 word"
  rdi :: "64 word"
  rdx :: "64 word"
  stack :: "64 word list"

datatype fault = divide_error | stack_underflow | bad_return

definition tdiv :: "int \<Rightarrow> int \<Rightarrow> int" where
  "tdiv a b = (if (a < 0) = (b < 0) then \<bar>a\<bar> div \<bar>b\<bar> else - (\<bar>a\<bar> div \<bar>b\<bar>))"

fun get_reg :: "reg \<Rightarrow> machine \<Rightarrow> 64 word" where
  "get_reg RAX m = rax m"
| "get_reg RDI m = rdi m"

fun set_reg :: "reg \<Rightarrow> 64 word \<Rightarrow> machine \<Rightarrow> machine" where
  "set_reg RAX v m = m\<lparr>rax := v\<rparr>"
| "set_reg RDI v m = m\<lparr>rdi := v\<rparr>"

fun step :: "instr \<Rightarrow> machine \<Rightarrow> fault + machine" where
  "step (Push_imm v) m = Inr (m\<lparr>stack := scast v # stack m\<rparr>)"
| "step (Push r) m = Inr (m\<lparr>stack := get_reg r m # stack m\<rparr>)"
| "step (Pop r) m =
     (case stack m of
        [] \<Rightarrow> Inl stack_underflow
      | v # rest \<Rightarrow> Inr (set_reg r v (m\<lparr>stack := rest\<rparr>)))"
| "step (Add r1 r2) m = Inr (set_reg r1 (get_reg r1 m + get_reg r2 m) m)"
| "step (Sub r1 r2) m = Inr (set_reg r1 (get_reg r1 m - get_reg r2 m) m)"
| "step (Imul r1 r2) m = Inr (set_reg r1 (get_reg r1 m * get_reg r2 m) m)"
| "step Cqo m = Inr (m\<lparr>rdx := (if sint (rax m) < 0 then - 1 else 0)\<rparr>)"
| "step (Idiv r) m =
     (let dividend = sint (rdx m) * 2 ^ 64 + uint (rax m);
          divisor = sint (get_reg r m);
          q = tdiv dividend divisor
      in if divisor = 0 \<or> q < - (2 ^ 63) \<or> 2 ^ 63 \<le> q then Inl divide_error
         else Inr (m\<lparr>rax := word_of_int q, rdx := word_of_int (dividend - q * divisor)\<rparr>))"
| "step Ret m = (case stack m of [] \<Rightarrow> Inr m | _ # _ \<Rightarrow> Inl bad_return)"

fun exec :: "instr list \<Rightarrow> machine \<Rightarrow> fault + machine" where
  "exec [] m = Inr m"
| "exec (i # is) m = (case step i m of Inl f \<Rightarrow> Inl f | Inr m' \<Rightarrow> exec is m')"


section \<open>Notions of the specification\<close>

subsection \<open>Lexical structure\<close>

text \<open>
  The characters the lexer accepts: white space, the six operator and parenthesis
  characters, and the decimal digits.
\<close>

definition lexable :: "char \<Rightarrow> bool" where
  "lexable c = (isspace c \<or> c \<in> set ''+-*/()'' \<or> isdigit c)"

text \<open>
  \<open>lexes s toks\<close>: the token sequence \<open>toks\<close> is the one the specification describes
  for the input \<open>s\<close>. White space before a token is skipped and the token points at
  the next character; the end-of-input token stands where the input is exhausted and
  is the last one; an operator token stands on one of the six characters and the
  rest is read from the next character; an integer token stands on a digit and the
  rest is read from the end of the whole run of digits.
\<close>

fun lexes :: "string \<Rightarrow> Token list \<Rightarrow> bool" where
  "lexes s [] = False"
| "lexes s (tok # toks) =
     (let p = dropWhile isspace s in
      str tok = p \<and>
      (case kind tok of
         TK_EOF \<Rightarrow> p = [] \<and> toks = []
       | TK_RESERVED \<Rightarrow>
           (case p of [] \<Rightarrow> False | c # cs \<Rightarrow> c \<in> set ''+-*/()'' \<and> lexes cs toks)
       | TK_NUM \<Rightarrow>
           (case p of [] \<Rightarrow> False | c # cs \<Rightarrow> isdigit c \<and> lexes (dropWhile isdigit cs) toks)))"

text \<open>A run of digits is maximal when no digit follows it.\<close>

definition no_digit_ahead :: "string \<Rightarrow> bool" where
  "no_digit_ahead s = (case s of [] \<Rightarrow> True | c # _ \<Rightarrow> \<not> isdigit c)"

subsection \<open>Stack effect and value of the generated code\<close>

text \<open>
  The stack effect of an instruction sequence, counted on the number \<open>d\<close> of values
  the sequence itself has pushed so far: a \<open>pop\<close> at \<open>d = 0\<close> would consume a value
  from outside, which is the result \<open>None\<close>.
\<close>

fun effect :: "instr \<Rightarrow> nat \<Rightarrow> nat option" where
  "effect (Push_imm v) d = Some (Suc d)"
| "effect (Push r) d = Some (Suc d)"
| "effect (Pop r) d = (case d of 0 \<Rightarrow> None | Suc d' \<Rightarrow> Some d')"
| "effect i d = Some d"

fun depth :: "instr list \<Rightarrow> nat \<Rightarrow> nat option" where
  "depth [] d = Some d"
| "depth (i # is) d = (case effect i d of None \<Rightarrow> None | Some d' \<Rightarrow> depth is d')"

text \<open>
  The value of a tree in the arithmetic of the target: 64-bit two's complement with
  wrap-around, a literal sign-extended from 32 bits, the division truncated toward
  zero and undefined (\<open>None\<close>) where \<open>idiv\<close> raises the divide error.
\<close>

definition binop64 :: "NodeKind \<Rightarrow> 64 word \<Rightarrow> 64 word \<Rightarrow> 64 word option" where
  "binop64 k a b =
     (case k of
        ND_ADD \<Rightarrow> Some (a + b)
      | ND_SUB \<Rightarrow> Some (a - b)
      | ND_MUL \<Rightarrow> Some (a * b)
      | ND_DIV \<Rightarrow>
          if sint b = 0 \<or> (sint a = - (2 ^ 63) \<and> sint b = - 1) then None
          else Some (word_of_int (tdiv (sint a) (sint b))))"

fun value64 :: "Node \<Rightarrow> 64 word option" where
  "value64 (new_num v) = Some (scast v)"
| "value64 (new_binary k lhs rhs) =
     (case value64 lhs of
        None \<Rightarrow> None
      | Some a \<Rightarrow> (case value64 rhs of None \<Rightarrow> None | Some b \<Rightarrow> binop64 k a b))"

subsection \<open>Token sequences that end in the end-of-input token\<close>

text \<open>
  A cursor of the parser is sound when it is not the NULL pointer and the chain from
  it ends in the end-of-input token; a result of the parser is sound when it is not
  a read through NULL and the cursor it leaves is sound.
\<close>

definition ends_in_eof :: "Token list \<Rightarrow> bool" where
  "ends_in_eof toks = (toks \<noteq> [] \<and> kind (last toks) = TK_EOF)"

definition no_crash :: "abort + Node \<times> Token list \<Rightarrow> bool" where
  "no_crash r = (case r of Inl a \<Rightarrow> a \<noteq> null_deref | Inr (node, rest) \<Rightarrow> ends_in_eof rest)"

subsection \<open>Well-formed inputs and their mathematical value\<close>

text \<open>
  The grammar of the specification,
  \<open>expr = mul (('+' | '-') mul)*\<close>, \<open>mul = primary (('*' | '/') primary)*\<close>,
  \<open>primary = '(' expr ')' | IntegerLiteral\<close>,
  as the type of its derivations. A repetition is kept in its left-nested form: an
  \<open>expr\<close> is a \<open>mul\<close>, or an \<open>expr\<close> followed by an operator and a \<open>mul\<close>. Every token
  of a derivation carries the white space written before it; a literal is its string
  of digits.
\<close>

datatype addop = Plus | Minus

datatype mulop = Times | Over

datatype syn_primary = PNum string string | PParen string syn_expr string
  and syn_mul = MPrim syn_primary | MOp syn_mul string mulop syn_primary
  and syn_expr = EMul syn_mul | EOp syn_expr string addop syn_mul

fun addop_char :: "addop \<Rightarrow> char" where
  "addop_char Plus = CHR ''+''"
| "addop_char Minus = CHR ''-''"

fun mulop_char :: "mulop \<Rightarrow> char" where
  "mulop_char Times = CHR ''*''"
| "mulop_char Over = CHR ''/''"

text \<open>The input text of a derivation.\<close>

fun text_primary :: "syn_primary \<Rightarrow> string"
  and text_mul :: "syn_mul \<Rightarrow> string"
  and text_expr :: "syn_expr \<Rightarrow> string"
where
  "text_primary (PNum w ds) = w @ ds"
| "text_primary (PParen w e w') = w @ ''('' @ text_expr e @ w' @ '')''"
| "text_mul (MPrim p) = text_primary p"
| "text_mul (MOp m w op p) = text_mul m @ w @ [mulop_char op] @ text_primary p"
| "text_expr (EMul m) = text_mul m"
| "text_expr (EOp e w op m) = text_expr e @ w @ [addop_char op] @ text_mul m"

text \<open>
  A derivation is well formed when its white space is white space and its literals
  are non-empty strings of digits (with no space inside, by construction).
\<close>

fun wf_primary :: "syn_primary \<Rightarrow> bool"
  and wf_mul :: "syn_mul \<Rightarrow> bool"
  and wf_expr :: "syn_expr \<Rightarrow> bool"
where
  "wf_primary (PNum w ds) = (list_all isspace w \<and> ds \<noteq> [] \<and> list_all isdigit ds)"
| "wf_primary (PParen w e w') = (list_all isspace w \<and> wf_expr e \<and> list_all isspace w')"
| "wf_mul (MPrim p) = wf_primary p"
| "wf_mul (MOp m w op p) = (wf_mul m \<and> list_all isspace w \<and> wf_primary p)"
| "wf_expr (EMul m) = wf_mul m"
| "wf_expr (EOp e w op m) = (wf_expr e \<and> list_all isspace w \<and> wf_mul m)"

text \<open>The literals of a derivation.\<close>

fun literals_primary :: "syn_primary \<Rightarrow> string list"
  and literals_mul :: "syn_mul \<Rightarrow> string list"
  and literals_expr :: "syn_expr \<Rightarrow> string list"
where
  "literals_primary (PNum w ds) = [ds]"
| "literals_primary (PParen w e w') = literals_expr e"
| "literals_mul (MPrim p) = literals_primary p"
| "literals_mul (MOp m w op p) = literals_mul m @ literals_primary p"
| "literals_expr (EMul m) = literals_mul m"
| "literals_expr (EOp e w op m) = literals_expr e @ literals_mul m"

text \<open>
  The mathematical value: exact integers, the operators of one level grouped from
  the left, \<open>*\<close> and \<open>/\<close> below \<open>+\<close> and \<open>-\<close>, the division truncated toward zero and
  without a value when the divisor is zero.
\<close>

definition arith :: "NodeKind \<Rightarrow> int option \<Rightarrow> int option \<Rightarrow> int option" where
  "arith k x y =
     (case x of
        None \<Rightarrow> None
      | Some a \<Rightarrow>
          (case y of
             None \<Rightarrow> None
           | Some b \<Rightarrow>
               (case k of
                  ND_ADD \<Rightarrow> Some (a + b)
                | ND_SUB \<Rightarrow> Some (a - b)
                | ND_MUL \<Rightarrow> Some (a * b)
                | ND_DIV \<Rightarrow> if b = 0 then None else Some (tdiv a b))))"

fun addop_kind :: "addop \<Rightarrow> NodeKind" where
  "addop_kind Plus = ND_ADD"
| "addop_kind Minus = ND_SUB"

fun mulop_kind :: "mulop \<Rightarrow> NodeKind" where
  "mulop_kind Times = ND_MUL"
| "mulop_kind Over = ND_DIV"

fun value_primary :: "syn_primary \<Rightarrow> int option"
  and value_mul :: "syn_mul \<Rightarrow> int option"
  and value_expr :: "syn_expr \<Rightarrow> int option"
where
  "value_primary (PNum w ds) = Some (decimal ds)"
| "value_primary (PParen w e w') = value_expr e"
| "value_mul (MPrim p) = value_primary p"
| "value_mul (MOp m w op p) = arith (mulop_kind op) (value_mul m) (value_primary p)"
| "value_expr (EMul m) = value_mul m"
| "value_expr (EOp e w op m) = arith (addop_kind op) (value_expr e) (value_mul m)"

text \<open>The value of a tree of the parser in exact integer arithmetic.\<close>

fun eval :: "Node \<Rightarrow> int option" where
  "eval (new_num v) = Some (sint v)"
| "eval (new_binary k lhs rhs) = arith k (eval lhs) (eval rhs)"

subsection \<open>Auxiliary notions of the proofs\<close>

text \<open>The instructions \<open>gen\<close> writes for a binary node after those of its operands.\<close>

definition op_code :: "NodeKind \<Rightarrow> instr list" where
  "op_code k =
     [Pop RDI, Pop RAX] @
     (case k of
        ND_ADD \<Rightarrow> [Add RAX RDI]
      | ND_SUB \<Rightarrow> [Sub RAX RDI]
      | ND_MUL \<Rightarrow> [Imul RAX RDI]
      | ND_DIV \<Rightarrow> [Cqo, Idiv RDI]) @
     [Push RAX]"

text \<open>The tokens of a derivation whose text is followed by \<open>k\<close>, and its tree.\<close>

fun toks_primary :: "syn_primary \<Rightarrow> string \<Rightarrow> Token list"
  and toks_mul :: "syn_mul \<Rightarrow> string \<Rightarrow> Token list"
  and toks_expr :: "syn_expr \<Rightarrow> string \<Rightarrow> Token list"
where
  "toks_primary (PNum w ds) k =
     [\<lparr>kind = TK_NUM, val = word_of_int (min LONG_MAX (decimal ds)), str = ds @ k\<rparr>]"
| "toks_primary (PParen w e w') k =
     new_token TK_RESERVED (''('' @ text_expr e @ w' @ '')'' @ k) #
     toks_expr e (w' @ '')'' @ k) @ [new_token TK_RESERVED ('')'' @ k)]"
| "toks_mul (MPrim p) k = toks_primary p k"
| "toks_mul (MOp m w op p) k =
     toks_mul m (w @ [mulop_char op] @ text_primary p @ k) @
     new_token TK_RESERVED ([mulop_char op] @ text_primary p @ k) # toks_primary p k"
| "toks_expr (EMul m) k = toks_mul m k"
| "toks_expr (EOp e w op m) k =
     toks_expr e (w @ [addop_char op] @ text_mul m @ k) @
     new_token TK_RESERVED ([addop_char op] @ text_mul m @ k) # toks_mul m k"

fun ast_primary :: "syn_primary \<Rightarrow> Node"
  and ast_mul :: "syn_mul \<Rightarrow> Node"
  and ast_expr :: "syn_expr \<Rightarrow> Node"
where
  "ast_primary (PNum w ds) = new_num (word_of_int (min LONG_MAX (decimal ds)))"
| "ast_primary (PParen w e w') = ast_expr e"
| "ast_mul (MPrim p) = ast_primary p"
| "ast_mul (MOp m w op p) = new_binary (mulop_kind op) (ast_mul m) (ast_primary p)"
| "ast_expr (EMul m) = ast_mul m"
| "ast_expr (EOp e w op m) = new_binary (addop_kind op) (ast_expr e) (ast_mul m)"

definition prepend :: "Token list \<Rightarrow> abort + Token list \<Rightarrow> abort + Token list" where
  "prepend toks r = (case r of Inl a \<Rightarrow> Inl a | Inr toks' \<Rightarrow> Inr (toks @ toks'))"

text \<open>A cursor at which \<open>mul_loop\<close>, and one at which \<open>expr_loop\<close>, returns at once.\<close>

definition stops :: "string \<Rightarrow> Token list \<Rightarrow> bool" where
  "stops ops token =
     (case token of [] \<Rightarrow> False | tok # _ \<Rightarrow> kind tok \<noteq> TK_RESERVED \<or> str0 tok \<notin> set ops)"

section \<open>Lemmas\<close>

lemma main_argv2:
  "main [prog, user_input] =
     (case tokenize user_input of
        Inl a \<Rightarrow> die user_input a
      | Inr token \<Rightarrow>
          (case expr token of
             Inl a \<Rightarrow> die user_input a
           | Inr (node, rest) \<Rightarrow> Exited 0 (assembly node) None))"
  by (simp add: main_def)

subsection \<open>Lexer\<close>

lemma isdigit_not_isspace: "isdigit c \<Longrightarrow> \<not> isspace c"
  by (auto simp: isdigit_def isspace_def)

lemma isdigit_not_op: "isdigit c \<Longrightarrow> c \<notin> set ''+-*/()''"
  by (auto simp: isdigit_def)

lemma op_not_isspace: "c \<in> set ''+-*/()'' \<Longrightarrow> \<not> isspace c"
  by (auto simp: isspace_def)

lemma tokenize_loop_space: "list_all isspace w \<Longrightarrow> tokenize_loop (w @ s) = tokenize_loop s"
  by (induction w) simp_all

lemma tokenize_loop_op:
  "c \<in> set ''+-*/()'' \<Longrightarrow>
     tokenize_loop (c # s) = link (new_token TK_RESERVED (c # s)) (tokenize_loop s)"
  using op_not_isspace [of c] by simp

lemma takeWhile_run:
  "list_all P ds \<Longrightarrow> (case rest of [] \<Rightarrow> True | c # _ \<Rightarrow> \<not> P c) \<Longrightarrow>
     takeWhile P (ds @ rest) = ds \<and> dropWhile P (ds @ rest) = rest"
  by (induction ds) (auto split: list.splits)

lemma tokenize_loop_literal:
  assumes "ds \<noteq> []" "list_all isdigit ds" "no_digit_ahead rest"
  shows "tokenize_loop (ds @ rest) =
           link \<lparr>kind = TK_NUM, val = word_of_int (min LONG_MAX (decimal ds)), str = ds @ rest\<rparr>
                (tokenize_loop rest)"
proof -
  from assms(1) obtain c cs where ds: "ds = c # cs" by (cases ds) auto
  with assms(2) have c: "isdigit c" by simp
  have run: "takeWhile isdigit (ds @ rest) = ds" "dropWhile isdigit (ds @ rest) = rest"
    using takeWhile_run [of isdigit ds rest] assms(2,3) by (simp_all add: no_digit_ahead_def)
  from run(2) c ds have d: "dropWhile isdigit (cs @ rest) = rest" by simp
  have "strtol (c # cs @ rest) = (min LONG_MAX (decimal ds), rest)"
    using strtol_digit [OF c, of "cs @ rest"] run(1) d ds by simp
  then show ?thesis
    using c isdigit_not_isspace [OF c] isdigit_not_op [OF c] ds
    by (simp add: new_token_def)
qed

lemma tokenize_blank: "list_all isspace s \<Longrightarrow> tokenize s = Inr [new_token TK_EOF []]"
  using tokenize_loop_space [of s "[]"] by (simp add: tokenize_def)

lemma lexes_space: "isspace c \<Longrightarrow> lexes (c # cs) toks = lexes cs toks"
  by (cases toks) simp_all

lemma lexes_last:
  "lexes s toks \<Longrightarrow>
     toks \<noteq> [] \<and> kind (last toks) = TK_EOF \<and> list_all (\<lambda>t. kind t \<noteq> TK_EOF) (butlast toks)"
proof (induction toks arbitrary: s)
  case Nil
  then show ?case by simp
next
  case (Cons tok toks)
  show ?case
  proof (cases "kind tok")
    case TK_EOF
    with Cons.prems show ?thesis by (simp add: Let_def)
  next
    case TK_RESERVED
    with Cons.prems obtain cs where "lexes cs toks"
      by (auto simp: Let_def split: list.splits)
    from Cons.IH [OF this] TK_RESERVED show ?thesis by simp
  next
    case TK_NUM
    with Cons.prems obtain cs where "lexes cs toks"
      by (auto simp: Let_def split: list.splits)
    from Cons.IH [OF this] TK_NUM show ?thesis by simp
  qed
qed

lemma dropWhile_weaker:
  "(\<And>x. P x \<Longrightarrow> Q x) \<Longrightarrow> dropWhile Q (dropWhile P xs) = dropWhile Q xs"
  by (induction xs) auto

lemma list_all_dropWhile_weaker:
  "(\<And>x. P x \<Longrightarrow> Q x) \<Longrightarrow> list_all Q (dropWhile P xs) = list_all Q xs"
  by (induction xs) auto

lemma tokenize_loop_accepts:
  "list_all lexable s \<Longrightarrow> \<exists>toks. tokenize_loop s = Inr toks \<and> lexes s toks"
proof (induction s rule: tokenize_loop.induct)
  case 1
  show ?case by (simp add: new_token_def)
next
  case (2 c cs)
  from "2.prems" have c: "lexable c" and cs: "list_all lexable cs" by simp_all
  show ?case
  proof (cases "isspace c")
    case True
    with "2.IH"(1) cs show ?thesis by (simp add: lexes_space)
  next
    case False
    note nsp = False
    show ?thesis
    proof (cases "c \<in> set ''+-*/()''")
      case True
      from "2.IH"(2) [OF nsp True cs] obtain toks where
        "tokenize_loop cs = Inr toks" "lexes cs toks" by auto
      with nsp True show ?thesis by (simp add: link_def new_token_def)
    next
      case False
      with c nsp have d: "isdigit c" by (simp add: lexable_def)
      have st: "strtol (c # cs) =
          (min LONG_MAX (decimal (takeWhile isdigit (c # cs))), dropWhile isdigit cs)"
        by (rule strtol_digit [OF d])
      have "list_all lexable (dropWhile isdigit cs)"
        using cs by (simp add: list_all_dropWhile_weaker lexable_def)
      then have "list_all lexable (snd (strtol (c # cs)))" by (simp add: st)
      from "2.IH"(3) [OF nsp False d this] obtain toks where
        "tokenize_loop (dropWhile isdigit cs) = Inr toks" "lexes (dropWhile isdigit cs) toks"
        by (auto simp: st)
      with nsp False d show ?thesis by (simp add: link_def new_token_def st)
    qed
  qed
qed

lemma tokenize_loop_rejects:
  "\<not> list_all lexable s \<Longrightarrow>
     tokenize_loop s = Inl (error_at (dropWhile lexable s) UnrecognizedCharacter)"
proof (induction s rule: tokenize_loop.induct)
  case 1
  then show ?case by simp
next
  case (2 c cs)
  show ?case
  proof (cases "isspace c")
    case True
    with "2.IH"(1) "2.prems" show ?thesis by (simp add: lexable_def)
  next
    case False
    note nsp = False
    show ?thesis
    proof (cases "c \<in> set ''+-*/()''")
      case True
      then have "lexable c" by (simp add: lexable_def)
      with "2.IH"(2) [OF nsp True] "2.prems" nsp True show ?thesis
        by (simp add: link_def)
    next
      case False
      note nop = False
      show ?thesis
      proof (cases "isdigit c")
        case True
        have st: "snd (strtol (c # cs)) = dropWhile isdigit cs"
          by (simp add: strtol_digit [OF True])
        have lc: "lexable c" using True by (simp add: lexable_def)
        with "2.prems" have "\<not> list_all lexable cs" by simp
        then have "\<not> list_all lexable (dropWhile isdigit cs)"
          by (simp add: list_all_dropWhile_weaker lexable_def)
        then have "tokenize_loop (dropWhile isdigit cs) =
            Inl (error_at (dropWhile lexable (dropWhile isdigit cs)) UnrecognizedCharacter)"
          using "2.IH"(3) [OF nsp nop True] by (simp add: st)
        also have "dropWhile lexable (dropWhile isdigit cs) = dropWhile lexable cs"
          by (rule dropWhile_weaker) (simp add: lexable_def)
        finally show ?thesis
          using nsp nop True lc by (simp add: link_def st)
      next
        case False
        with nsp nop have "\<not> lexable c" by (simp add: lexable_def)
        with nsp nop False show ?thesis by simp
      qed
    qed
  qed
qed

subsection \<open>Code generator and target machine\<close>

lemma exec_append:
  "exec (is1 @ is2) m = (case exec is1 m of Inl f \<Rightarrow> Inl f | Inr m' \<Rightarrow> exec is2 m')"
  by (induction is1 arbitrary: m) (auto split: sum.splits)

lemma cqo_dividend:
  fixes a :: "64 word"
  shows "sint (if sint a < 0 then - 1 else 0 :: 64 word) * 2 ^ 64 + uint a = sint a"
proof -
  have lo: "- (2 ^ 63) \<le> sint a" and hi: "sint a < 2 ^ 63"
    using sint_ge [of a] sint_lt [of a] by simp_all
  have u: "uint a = sint a mod 2 ^ 64"
    by (simp add: uint_sint take_bit_eq_mod)
  show ?thesis
  proof (cases "sint a < 0")
    case True
    have "(sint a + 2 ^ 64) mod 2 ^ 64 = sint a + 2 ^ 64"
      using lo True by (intro mod_pos_pos_trivial) simp_all
    then have "sint a mod 2 ^ 64 = sint a + 2 ^ 64"
      by simp
    with True u show ?thesis by simp
  next
    case False
    then have "sint a mod 2 ^ 64 = sint a"
      using hi by (intro mod_pos_pos_trivial) simp_all
    with False u show ?thesis by simp
  qed
qed

lemma tdiv_range:
  assumes "- (2 ^ 63) \<le> x" "x < 2 ^ 63" "y \<noteq> 0" "\<not> (x = - (2 ^ 63) \<and> y = - 1)"
  shows "- (2 ^ 63) \<le> tdiv x y \<and> tdiv x y < 2 ^ 63"
proof -
  have "\<bar>x\<bar> div \<bar>y\<bar> \<le> \<bar>x\<bar> div 1"
    using assms(3) by (intro zdiv_mono2) simp_all
  then have le: "\<bar>x\<bar> div \<bar>y\<bar> \<le> \<bar>x\<bar>"
    by simp
  have nonneg: "0 \<le> \<bar>x\<bar> div \<bar>y\<bar>"
    using assms(3) by (intro pos_imp_zdiv_nonneg_iff [THEN iffD2]) simp_all
  have ax: "\<bar>x\<bar> \<le> 2 ^ 63" using assms(1,2) by simp
  show ?thesis
  proof (cases "\<bar>x\<bar> div \<bar>y\<bar> = 2 ^ 63")
    case True
    with le ax have x: "\<bar>x\<bar> = 2 ^ 63" by simp
    with assms(2) have xm: "x = - (2 ^ 63)" by simp
    have "\<bar>y\<bar> = 1"
    proof (rule ccontr)
      assume "\<bar>y\<bar> \<noteq> 1"
      with assms(3) have "2 \<le> \<bar>y\<bar>" by simp
      then have "\<bar>x\<bar> div \<bar>y\<bar> \<le> \<bar>x\<bar> div 2"
        by (intro zdiv_mono2) simp_all
      with True x show False by simp
    qed
    with assms(4) xm have "y = 1" by auto
    with xm show ?thesis by (simp add: tdiv_def)
  next
    case False
    with le ax have "\<bar>x\<bar> div \<bar>y\<bar> < 2 ^ 63" by simp
    with nonneg show ?thesis by (auto simp: tdiv_def)
  qed
qed

lemma division_code:
  fixes a b :: "64 word"
  assumes "sint b \<noteq> 0" "\<not> (sint a = - (2 ^ 63) \<and> sint b = - 1)"
  shows "exec [Pop RDI, Pop RAX, Cqo, Idiv RDI, Push RAX] (m\<lparr>stack := b # a # stk\<rparr>) =
           Inr (m\<lparr>rax := word_of_int (tdiv (sint a) (sint b)), rdi := b,
                  rdx := word_of_int (sint a - tdiv (sint a) (sint b) * sint b),
                  stack := word_of_int (tdiv (sint a) (sint b)) # stk\<rparr>)"
proof -
  have r: "- (2 ^ 63) \<le> tdiv (sint a) (sint b) \<and> tdiv (sint a) (sint b) < 2 ^ 63"
    using sint_ge [of a] sint_lt [of a] assms by (intro tdiv_range) simp_all
  show ?thesis
    using r assms(1) cqo_dividend [of a] by (simp add: Let_def)
qed

lemma division_fault:
  fixes a b :: "64 word"
  assumes "sint b = 0 \<or> (sint a = - (2 ^ 63) \<and> sint b = - 1)"
  shows "exec [Pop RDI, Pop RAX, Cqo, Idiv RDI, Push RAX] (m\<lparr>stack := b # a # stk\<rparr>) =
           Inl divide_error"
proof -
  have "tdiv (- (2 ^ 63)) (- 1) = 2 ^ 63" by (simp add: tdiv_def)
  then show ?thesis
    using assms cqo_dividend [of a] by (auto simp: Let_def)
qed


lemma gen_binary: "gen (new_binary k lhs rhs) = gen lhs @ gen rhs @ op_code k"
  by (simp add: op_code_def)

lemma binop_code:
  assumes "stack m = b # a # stk"
  shows "case binop64 k a b of
           None \<Rightarrow> exec (op_code k) m = Inl divide_error
         | Some v \<Rightarrow> (\<exists>m'. exec (op_code k) m = Inr m' \<and> stack m' = v # stk)"
proof (cases k)
  case ND_DIV
  have m: "m = m\<lparr>stack := b # a # stk\<rparr>" using assms by simp
  show ?thesis
  proof (cases "sint b = 0 \<or> (sint a = - (2 ^ 63) \<and> sint b = - 1)")
    case True
    then have "exec [Pop RDI, Pop RAX, Cqo, Idiv RDI, Push RAX] m = Inl divide_error"
      using division_fault [where a = a and b = b and m = m and stk = stk] m by simp
    with True ND_DIV show ?thesis by (simp add: binop64_def op_code_def)
  next
    case False
    then have "exec [Pop RDI, Pop RAX, Cqo, Idiv RDI, Push RAX] m =
           Inr (m\<lparr>rax := word_of_int (tdiv (sint a) (sint b)), rdi := b,
                  rdx := word_of_int (sint a - tdiv (sint a) (sint b) * sint b),
                  stack := word_of_int (tdiv (sint a) (sint b)) # stk\<rparr>)"
      using division_code [where a = a and b = b and m = m and stk = stk] m by simp
    with False ND_DIV show ?thesis by (simp add: binop64_def op_code_def)
  qed
qed (use assms in \<open>simp_all add: binop64_def op_code_def\<close>)

lemma depth_append:
  "depth (is1 @ is2) d = (case depth is1 d of None \<Rightarrow> None | Some d' \<Rightarrow> depth is2 d')"
  by (induction is1 arbitrary: d) (auto split: option.splits)

lemma depth_op_code: "depth (op_code k) (Suc (Suc d)) = Some (Suc d)"
  by (cases k) (simp_all add: op_code_def)

lemma depth_gen: "depth (gen node) d = Some (Suc d)"
proof (induction node arbitrary: d)
  case (new_num v)
  show ?case by simp
next
  case (new_binary k lhs rhs)
  then show ?case
    by (simp add: gen_binary depth_append depth_op_code del: gen.simps)
qed

lemma exec_gen:
  "case value64 node of
     None \<Rightarrow> exec (gen node) m = Inl divide_error
   | Some v \<Rightarrow> (\<exists>m'. exec (gen node) m = Inr m' \<and> stack m' = v # stack m)"
proof (induction node arbitrary: m)
  case (new_num v)
  show ?case by simp
next
  case (new_binary k lhs rhs)
  show ?case
  proof (cases "value64 lhs")
    case None
    with new_binary.IH(1) [of m] show ?thesis
      by (simp add: gen_binary exec_append del: gen.simps)
  next
    case (Some a)
    with new_binary.IH(1) [of m] obtain m1 where
      l: "exec (gen lhs) m = Inr m1" and s1: "stack m1 = a # stack m" by auto
    show ?thesis
    proof (cases "value64 rhs")
      case None
      with new_binary.IH(2) [of m1] l Some show ?thesis
        by (simp add: gen_binary exec_append del: gen.simps)
    next
      case (Some b)
      with new_binary.IH(2) [of m1] s1 obtain m2 where
        r: "exec (gen rhs) m1 = Inr m2" and s2: "stack m2 = b # a # stack m" by auto
      have e: "exec (gen (new_binary k lhs rhs)) m = exec (op_code k) m2"
        using l r by (simp add: gen_binary exec_append del: gen.simps)
      from binop_code [OF s2, of k] \<open>value64 lhs = Some a\<close> Some show ?thesis
        by (simp add: e del: gen.simps split: option.splits)
    qed
  qed
qed

subsection \<open>Parser\<close>

lemma consume_eof:
  assumes "ends_in_eof token"
  shows "\<exists>x y. consume op token = Inr (x, y) \<and> ends_in_eof y"
proof (cases token)
  case Nil
  with assms show ?thesis by (simp add: ends_in_eof_def)
next
  case (Cons tok rest)
  with assms show ?thesis by (cases rest) (auto simp: ends_in_eof_def)
qed

lemma expect_eof:
  assumes "ends_in_eof token"
  shows "case expect op token of Inl a \<Rightarrow> a \<noteq> null_deref | Inr rest \<Rightarrow> ends_in_eof rest"
proof (cases token)
  case Nil
  with assms show ?thesis by (simp add: ends_in_eof_def)
next
  case (Cons tok rest)
  with assms show ?thesis by (cases rest) (auto simp: ends_in_eof_def)
qed

lemma expect_number_eof:
  assumes "ends_in_eof token"
  shows "case expect_number token of
           Inl a \<Rightarrow> a \<noteq> null_deref | Inr (v, rest) \<Rightarrow> ends_in_eof rest"
proof (cases token)
  case Nil
  with assms show ?thesis by (simp add: ends_in_eof_def)
next
  case (Cons tok rest)
  with assms show ?thesis by (cases rest) (auto simp: ends_in_eof_def)
qed

lemma parser_keeps_eof:
  "ends_in_eof t1 \<longrightarrow> no_crash (expr t1)"
  "ends_in_eof t2 \<longrightarrow> no_crash (expr_loop a2 t2)"
  "ends_in_eof t3 \<longrightarrow> no_crash (mul t3)"
  "ends_in_eof t4 \<longrightarrow> no_crash (mul_loop a4 t4)"
  "ends_in_eof t5 \<longrightarrow> no_crash (primary t5)"
proof (induction t1 and a2 t2 and t3 and a4 t4 and t5
    rule: expr_expr_loop_mul_mul_loop_primary.induct)
  case (1 token)
  show ?case
  proof
    assume inv: "ends_in_eof token"
    with "1.IH"(1) have s: "no_crash (mul token)" by simp
    show "no_crash (expr token)"
    proof (cases "mul token")
      case (Inl e)
      with s show ?thesis by (simp add: expr.simps [of token] no_crash_def)
    next
      case (Inr b)
      obtain node token' where b: "(node, token') = b" by (cases b) auto
      with s Inr have "ends_in_eof token'" by (auto simp: no_crash_def)
      with "1.IH"(2) [OF Inr b] have "no_crash (expr_loop node token')" by simp
      with Inr b show ?thesis by (auto simp: expr.simps [of token])
    qed
  qed
next
  case (2 node token)
  show ?case
  proof
    assume inv: "ends_in_eof token"
    from consume_eof [OF inv, of "CHR ''+''"] obtain x y where
      c1: "consume CHR ''+'' token = Inr (x, y)" and y: "ends_in_eof y" by auto
    show "no_crash (expr_loop node token)"
    proof (cases x)
      case True
      then have xT: "x = True" by simp
      from "2.IH"(1) [OF c1 refl xT] y have s: "no_crash (mul y)" by simp
      show ?thesis
      proof (cases "mul y")
        case (Inl e)
        with s c1 xT show ?thesis by (simp add: expr_loop.simps [of node token] no_crash_def)
      next
        case (Inr b)
        obtain rhs token2 where b: "(rhs, token2) = b" by (cases b) auto
        with s Inr have "ends_in_eof token2" by (auto simp: no_crash_def)
        with "2.IH"(2) [OF c1 refl xT Inr b] have
          "no_crash (expr_loop (new_binary ND_ADD node rhs) token2)" by simp
        with c1 xT Inr b show ?thesis by (auto simp: expr_loop.simps [of node token])
      qed
    next
      case False
      then have xF: "x = False" by simp
      from consume_eof [OF inv, of "CHR ''-''"] obtain x' y' where
        c2: "consume CHR ''-'' token = Inr (x', y')" and y': "ends_in_eof y'" by auto
      show ?thesis
      proof (cases x')
        case True
        then have xT': "x' = True" by simp
        from "2.IH"(3) [OF c1 refl xF c2 refl xT'] y' have s: "no_crash (mul y')" by simp
        show ?thesis
        proof (cases "mul y'")
          case (Inl e)
          with s c1 xF c2 xT' show ?thesis
            by (simp add: expr_loop.simps [of node token] no_crash_def)
        next
          case (Inr b)
          obtain rhs token2 where b: "(rhs, token2) = b" by (cases b) auto
          with s Inr have "ends_in_eof token2" by (auto simp: no_crash_def)
          with "2.IH"(4) [OF c1 refl xF c2 refl xT' Inr b] have
            "no_crash (expr_loop (new_binary ND_SUB node rhs) token2)" by simp
          with c1 xF c2 xT' Inr b show ?thesis by (auto simp: expr_loop.simps [of node token])
        qed
      next
        case False
        with c1 xF c2 inv show ?thesis
          by (simp add: expr_loop.simps [of node token] no_crash_def)
      qed
    qed
  qed
next
  case (3 token)
  show ?case
  proof
    assume inv: "ends_in_eof token"
    with "3.IH"(1) have s: "no_crash (primary token)" by simp
    show "no_crash (mul token)"
    proof (cases "primary token")
      case (Inl e)
      with s show ?thesis by (simp add: mul.simps [of token] no_crash_def)
    next
      case (Inr b)
      obtain node token' where b: "(node, token') = b" by (cases b) auto
      with s Inr have "ends_in_eof token'" by (auto simp: no_crash_def)
      with "3.IH"(2) [OF Inr b] have "no_crash (mul_loop node token')" by simp
      with Inr b show ?thesis by (auto simp: mul.simps [of token])
    qed
  qed
next
  case (4 node token)
  show ?case
  proof
    assume inv: "ends_in_eof token"
    from consume_eof [OF inv, of "CHR ''*''"] obtain x y where
      c1: "consume CHR ''*'' token = Inr (x, y)" and y: "ends_in_eof y" by auto
    show "no_crash (mul_loop node token)"
    proof (cases x)
      case True
      then have xT: "x = True" by simp
      from "4.IH"(1) [OF c1 refl xT] y have s: "no_crash (primary y)" by simp
      show ?thesis
      proof (cases "primary y")
        case (Inl e)
        with s c1 xT show ?thesis by (simp add: mul_loop.simps [of node token] no_crash_def)
      next
        case (Inr b)
        obtain rhs token2 where b: "(rhs, token2) = b" by (cases b) auto
        with s Inr have "ends_in_eof token2" by (auto simp: no_crash_def)
        with "4.IH"(2) [OF c1 refl xT Inr b] have
          "no_crash (mul_loop (new_binary ND_MUL node rhs) token2)" by simp
        with c1 xT Inr b show ?thesis by (auto simp: mul_loop.simps [of node token])
      qed
    next
      case False
      then have xF: "x = False" by simp
      from consume_eof [OF inv, of "CHR ''/''"] obtain x' y' where
        c2: "consume CHR ''/'' token = Inr (x', y')" and y': "ends_in_eof y'" by auto
      show ?thesis
      proof (cases x')
        case True
        then have xT': "x' = True" by simp
        from "4.IH"(3) [OF c1 refl xF c2 refl xT'] y' have s: "no_crash (primary y')" by simp
        show ?thesis
        proof (cases "primary y'")
          case (Inl e)
          with s c1 xF c2 xT' show ?thesis
            by (simp add: mul_loop.simps [of node token] no_crash_def)
        next
          case (Inr b)
          obtain rhs token2 where b: "(rhs, token2) = b" by (cases b) auto
          with s Inr have "ends_in_eof token2" by (auto simp: no_crash_def)
          with "4.IH"(4) [OF c1 refl xF c2 refl xT' Inr b] have
            "no_crash (mul_loop (new_binary ND_DIV node rhs) token2)" by simp
          with c1 xF c2 xT' Inr b show ?thesis by (auto simp: mul_loop.simps [of node token])
        qed
      next
        case False
        with c1 xF c2 inv show ?thesis
          by (simp add: mul_loop.simps [of node token] no_crash_def)
      qed
    qed
  qed
next
  case (5 token)
  show ?case
  proof
    assume inv: "ends_in_eof token"
    from consume_eof [OF inv, of "CHR ''(''"] obtain x y where
      c1: "consume CHR ''('' token = Inr (x, y)" and y: "ends_in_eof y" by auto
    show "no_crash (primary token)"
    proof (cases x)
      case True
      then have xT: "x = True" by simp
      from "5.IH" [OF c1 refl xT] y have s: "no_crash (expr y)" by simp
      show ?thesis
      proof (cases "expr y")
        case (Inl e)
        with s c1 xT show ?thesis by (simp add: primary.simps [of token] no_crash_def)
      next
        case (Inr b)
        obtain node token2 where b: "b = (node, token2)" by (cases b) auto
        with s Inr have "ends_in_eof token2" by (auto simp: no_crash_def)
        from expect_eof [OF this, of "CHR '')''"] c1 xT Inr b show ?thesis
          by (auto simp: primary.simps [of token] no_crash_def split: sum.splits)
      qed
    next
      case False
      with expect_number_eof [OF inv] c1 show ?thesis
        by (auto simp: primary.simps [of token] no_crash_def split: sum.splits)
    qed
  qed
qed

lemma tokenize_ends_in_eof:
  assumes "tokenize s = Inr toks"
  shows "ends_in_eof toks"
proof -
  have "list_all lexable s"
  proof (rule ccontr)
    assume "\<not> list_all lexable s"
    from tokenize_loop_rejects [OF this] assms show False by (simp add: tokenize_def)
  qed
  from tokenize_loop_accepts [OF this] assms have "lexes s toks"
    by (auto simp: tokenize_def)
  from lexes_last [OF this] show ?thesis by (simp add: ends_in_eof_def)
qed

lemma consume_True_iff:
  "consume op token = Inr (True, rest) \<longleftrightarrow>
     (\<exists>tok. token = tok # rest \<and> kind tok = TK_RESERVED \<and> str0 tok = op)"
  by (cases token) auto

lemma expr_called_from:
  assumes "expr_expr_loop_mul_mul_loop_primary_rel (Inl (Inl cur)) x"
  shows "\<exists>tok. x = Inr (Inr (Inr (tok # cur))) \<and> kind tok = TK_RESERVED \<and> str0 tok = CHR ''(''"
  using assms
  by (cases rule: expr_expr_loop_mul_mul_loop_primary_rel.cases) (auto simp: consume_True_iff)

subsection \<open>From a derivation to its tokens and its tree\<close>

lemma prepend_simps [simp]:
  "prepend [] r = r"
  "prepend (t # ts) r = link t (prepend ts r)"
  "prepend (ts @ ts') r = prepend ts (prepend ts' r)"
  by (auto simp: prepend_def link_def split: sum.splits)

lemma no_digit_ahead_space:
  "list_all isspace w \<Longrightarrow> c \<in> set ''+-*/()'' \<Longrightarrow> no_digit_ahead (w @ c # s)"
  by (cases w) (auto simp: no_digit_ahead_def isdigit_def isspace_def)


lemma tokenize_loop_text:
  "\<forall>k. wf_primary p \<longrightarrow> no_digit_ahead k \<longrightarrow>
     tokenize_loop (text_primary p @ k) = prepend (toks_primary p k) (tokenize_loop k)"
  "\<forall>k. wf_mul m \<longrightarrow> no_digit_ahead k \<longrightarrow>
     tokenize_loop (text_mul m @ k) = prepend (toks_mul m k) (tokenize_loop k)"
  "\<forall>k. wf_expr e \<longrightarrow> no_digit_ahead k \<longrightarrow>
     tokenize_loop (text_expr e @ k) = prepend (toks_expr e k) (tokenize_loop k)"
proof (induction p and m and e)
  case (PNum w ds)
  show ?case
  proof (intro allI impI)
    fix k
    assume wf: "wf_primary (PNum w ds)" and k: "no_digit_ahead k"
    then have "tokenize_loop (w @ ds @ k) = tokenize_loop (ds @ k)"
      by (simp add: tokenize_loop_space)
    also have "\<dots> = link \<lparr>kind = TK_NUM, val = word_of_int (min LONG_MAX (decimal ds)), str = ds @ k\<rparr>
                (tokenize_loop k)"
      using wf k by (intro tokenize_loop_literal) simp_all
    finally show "tokenize_loop (text_primary (PNum w ds) @ k) =
        prepend (toks_primary (PNum w ds) k) (tokenize_loop k)"
      by simp
  qed
next
  case (PParen w e w')
  show ?case
  proof (intro allI impI)
    fix k
    assume wf: "wf_primary (PParen w e w')" and k: "no_digit_ahead k"
    have nd: "no_digit_ahead (w' @ CHR '')'' # k)"
      using wf by (intro no_digit_ahead_space) simp_all
    have "tokenize_loop (w @ CHR ''('' # text_expr e @ w' @ CHR '')'' # k) =
        tokenize_loop (CHR ''('' # text_expr e @ w' @ CHR '')'' # k)"
      using wf by (simp add: tokenize_loop_space)
    also have "\<dots> = link (new_token TK_RESERVED (CHR ''('' # text_expr e @ w' @ CHR '')'' # k))
        (tokenize_loop (text_expr e @ w' @ CHR '')'' # k))"
      by (intro tokenize_loop_op) simp
    also have "tokenize_loop (text_expr e @ w' @ CHR '')'' # k) =
        prepend (toks_expr e (w' @ CHR '')'' # k)) (tokenize_loop (w' @ CHR '')'' # k))"
      using PParen wf nd by simp
    also have "tokenize_loop (w' @ CHR '')'' # k) = tokenize_loop (CHR '')'' # k)"
      using wf by (simp add: tokenize_loop_space)
    also have "\<dots> = link (new_token TK_RESERVED (CHR '')'' # k)) (tokenize_loop k)"
      by (intro tokenize_loop_op) simp
    finally show "tokenize_loop (text_primary (PParen w e w') @ k) =
        prepend (toks_primary (PParen w e w') k) (tokenize_loop k)"
      by simp
  qed
next
  case (MPrim p)
  then show ?case by simp
next
  case (MOp m w op p)
  show ?case
  proof (intro allI impI)
    fix k
    assume wf: "wf_mul (MOp m w op p)" and k: "no_digit_ahead k"
    have c: "mulop_char op \<in> set ''+-*/()''" by (cases op) simp_all
    have nd: "no_digit_ahead (w @ mulop_char op # text_primary p @ k)"
      using wf c by (intro no_digit_ahead_space) simp_all
    have "tokenize_loop (text_mul m @ w @ mulop_char op # text_primary p @ k) =
        prepend (toks_mul m (w @ mulop_char op # text_primary p @ k))
          (tokenize_loop (w @ mulop_char op # text_primary p @ k))"
      using MOp wf nd by simp
    also have "tokenize_loop (w @ mulop_char op # text_primary p @ k) =
        tokenize_loop (mulop_char op # text_primary p @ k)"
      using wf by (simp add: tokenize_loop_space)
    also have "\<dots> = link (new_token TK_RESERVED (mulop_char op # text_primary p @ k))
        (tokenize_loop (text_primary p @ k))"
      using c by (rule tokenize_loop_op)
    also have "tokenize_loop (text_primary p @ k) = prepend (toks_primary p k) (tokenize_loop k)"
      using MOp wf k by simp
    finally show "tokenize_loop (text_mul (MOp m w op p) @ k) =
        prepend (toks_mul (MOp m w op p) k) (tokenize_loop k)"
      by simp
  qed
next
  case (EMul m)
  then show ?case by simp
next
  case (EOp e w op m)
  show ?case
  proof (intro allI impI)
    fix k
    assume wf: "wf_expr (EOp e w op m)" and k: "no_digit_ahead k"
    have c: "addop_char op \<in> set ''+-*/()''" by (cases op) simp_all
    have nd: "no_digit_ahead (w @ addop_char op # text_mul m @ k)"
      using wf c by (intro no_digit_ahead_space) simp_all
    have "tokenize_loop (text_expr e @ w @ addop_char op # text_mul m @ k) =
        prepend (toks_expr e (w @ addop_char op # text_mul m @ k))
          (tokenize_loop (w @ addop_char op # text_mul m @ k))"
      using EOp wf nd by simp
    also have "tokenize_loop (w @ addop_char op # text_mul m @ k) =
        tokenize_loop (addop_char op # text_mul m @ k)"
      using wf by (simp add: tokenize_loop_space)
    also have "\<dots> = link (new_token TK_RESERVED (addop_char op # text_mul m @ k))
        (tokenize_loop (text_mul m @ k))"
      using c by (rule tokenize_loop_op)
    also have "tokenize_loop (text_mul m @ k) = prepend (toks_mul m k) (tokenize_loop k)"
      using EOp wf k by simp
    finally show "tokenize_loop (text_expr (EOp e w op m) @ k) =
        prepend (toks_expr (EOp e w op m) k) (tokenize_loop k)"
      by simp
  qed
qed


lemma mul_loop_stops: "stops ''*/'' token \<Longrightarrow> mul_loop node token = Inr (node, token)"
  by (subst mul_loop.simps) (cases token; auto simp: stops_def)

lemma expr_loop_stops: "stops ''+-'' token \<Longrightarrow> expr_loop node token = Inr (node, token)"
  by (subst expr_loop.simps) (cases token; auto simp: stops_def)

lemma mul_loop_op:
  "primary token = Inr (rhs, rest) \<Longrightarrow>
     mul_loop node (new_token TK_RESERVED (mulop_char op # s) # token) =
       mul_loop (new_binary (mulop_kind op) node rhs) rest"
  by (subst mul_loop.simps) (cases op; simp add: new_token_def str0_def)

lemma expr_loop_op:
  "mul token = Inr (rhs, rest) \<Longrightarrow>
     expr_loop node (new_token TK_RESERVED (addop_char op # s) # token) =
       expr_loop (new_binary (addop_kind op) node rhs) rest"
  by (subst expr_loop.simps) (cases op; simp add: new_token_def str0_def)

lemma stops_op:
  "stops ''*/'' (new_token TK_RESERVED (addop_char op # s) # token)"
  "stops ''*/'' (new_token TK_RESERVED (CHR '')'' # s) # token)"
  "stops ''+-'' (new_token TK_RESERVED (CHR '')'' # s) # token)"
  by (cases op; simp add: stops_def new_token_def str0_def)+

lemma parse_toks:
  "\<forall>k token. primary (toks_primary p k @ token) = Inr (ast_primary p, token)"
  "\<forall>k token. mul (toks_mul m k @ token) = mul_loop (ast_mul m) token"
  "\<forall>k token. stops ''*/'' token \<longrightarrow>
     expr (toks_expr e k @ token) = expr_loop (ast_expr e) token"
proof (induction p and m and e)
  case (PNum w ds)
  show ?case
    by (simp add: primary.simps)
next
  case (PParen w e w')
  show ?case
  proof (intro allI)
    fix k token
    let ?close = "new_token TK_RESERVED (CHR '')'' # k)"
    from PParen have "expr (toks_expr e (w' @ CHR '')'' # k) @ ?close # token) =
        expr_loop (ast_expr e) (?close # token)"
      by (simp add: stops_op)
    also have "\<dots> = Inr (ast_expr e, ?close # token)"
      by (intro expr_loop_stops) (simp add: stops_op)
    finally have "expr (toks_expr e (w' @ CHR '')'' # k) @ ?close # token) =
        Inr (ast_expr e, ?close # token)" .
    then show "primary (toks_primary (PParen w e w') k @ token) =
        Inr (ast_primary (PParen w e w'), token)"
      by (simp add: primary.simps new_token_def str0_def)
  qed
next
  case (MPrim p)
  then show ?case by (simp add: mul.simps)
next
  case (MOp m w op p)
  show ?case
  proof (intro allI)
    fix k token
    let ?op = "new_token TK_RESERVED (mulop_char op # text_primary p @ k)"
    from MOp have "mul (toks_mul m (w @ mulop_char op # text_primary p @ k) @
          ?op # toks_primary p k @ token) =
        mul_loop (ast_mul m) (?op # toks_primary p k @ token)"
      by simp
    also have "\<dots> = mul_loop (new_binary (mulop_kind op) (ast_mul m) (ast_primary p)) token"
      using MOp by (intro mul_loop_op) simp
    finally show "mul (toks_mul (MOp m w op p) k @ token) = mul_loop (ast_mul (MOp m w op p)) token"
      by simp
  qed
next
  case (EMul m)
  show ?case
  proof (intro allI impI)
    fix k token
    assume st: "stops ''*/'' token"
    from EMul have "mul (toks_mul m k @ token) = mul_loop (ast_mul m) token" by simp
    also have "\<dots> = Inr (ast_mul m, token)" using st by (rule mul_loop_stops)
    finally show "expr (toks_expr (EMul m) k @ token) = expr_loop (ast_expr (EMul m)) token"
      by (simp add: expr.simps)
  qed
next
  case (EOp e w op m)
  show ?case
  proof (intro allI impI)
    fix k token
    assume st: "stops ''*/'' token"
    let ?op = "new_token TK_RESERVED (addop_char op # text_mul m @ k)"
    from EOp have "mul (toks_mul m k @ token) = mul_loop (ast_mul m) token" by simp
    also have "\<dots> = Inr (ast_mul m, token)" using st by (rule mul_loop_stops)
    finally have m: "mul (toks_mul m k @ token) = Inr (ast_mul m, token)" .
    from EOp have "expr (toks_expr e (w @ addop_char op # text_mul m @ k) @
          ?op # toks_mul m k @ token) =
        expr_loop (ast_expr e) (?op # toks_mul m k @ token)"
      by (simp add: stops_op)
    also have "\<dots> = expr_loop (new_binary (addop_kind op) (ast_expr e) (ast_mul m)) token"
      using m by (rule expr_loop_op)
    finally show "expr (toks_expr (EOp e w op m) k @ token) =
        expr_loop (ast_expr (EOp e w op m)) token"
      by simp
  qed
qed

lemma int_literal:
  assumes "list_all isdigit ds" "decimal ds < 2 ^ 31"
  shows "sint (word_of_int (min LONG_MAX (decimal ds)) :: c_int) = decimal ds"
proof -
  have nonneg: "0 \<le> decimal ds" by (rule decimal_nonneg [OF assms(1)])
  from assms(2) have "min LONG_MAX (decimal ds) = decimal ds"
    by (simp add: LONG_MAX_def)
  moreover have "sint (word_of_int (decimal ds) :: c_int) = decimal ds"
    using assms(2) nonneg by (simp add: sint_sbintrunc' signed_take_bit_int_eq_self)
  ultimately show ?thesis by simp
qed

lemma eval_ast:
  "wf_primary p \<longrightarrow> list_all (\<lambda>ds. decimal ds < 2 ^ 31) (literals_primary p) \<longrightarrow>
     eval (ast_primary p) = value_primary p"
  "wf_mul m \<longrightarrow> list_all (\<lambda>ds. decimal ds < 2 ^ 31) (literals_mul m) \<longrightarrow>
     eval (ast_mul m) = value_mul m"
  "wf_expr e \<longrightarrow> list_all (\<lambda>ds. decimal ds < 2 ^ 31) (literals_expr e) \<longrightarrow>
     eval (ast_expr e) = value_expr e"
  by (induction p and m and e) (simp_all add: int_literal)

section \<open>The claims\<close>

text \<open>
  C1, as the code has it. For every well-formed input, that is the text of a
  well-formed derivation of the grammar followed by white space, in which every
  literal is below \<open>2 ^ 31\<close> (it fits the 32-bit \<open>int\<close> of a token), \<open>tokenize\<close>
  succeeds, \<open>expr\<close> on its tokens returns a tree with the cursor on the end-of-input
  token, and the value of the tree in exact integer arithmetic is the mathematical
  value of the derivation: both are undefined together when a divisor is zero. In
  particular \<open>2+3*4\<close> yields 14, \<open>8-3-2\<close> yields 3 and \<open>(2+3)*4\<close> yields 20.
\<close>

theorem parse_well_formed:
  assumes "wf_expr e" "list_all isspace w"
    "list_all (\<lambda>ds. decimal ds < 2 ^ 31) (literals_expr e)"
  shows "\<exists>toks node. tokenize (text_expr e @ w) = Inr toks \<and>
           expr toks = Inr (node, [new_token TK_EOF []]) \<and>
           eval node = value_expr e"
proof -
  have nd: "no_digit_ahead w"
    using assms(2) by (cases w) (auto simp: no_digit_ahead_def dest: isdigit_not_isspace)
  have w: "tokenize_loop w = Inr [new_token TK_EOF []]"
    using tokenize_loop_space [OF assms(2), of "[]"] by simp
  have t: "tokenize (text_expr e @ w) = Inr (toks_expr e w @ [new_token TK_EOF []])"
    using tokenize_loop_text(3) [of e] assms(1) nd w by (simp add: tokenize_def prepend_def)
  have st: "stops ''*/'' [new_token TK_EOF []]" "stops ''+-'' [new_token TK_EOF []]"
    by (simp_all add: stops_def new_token_def)
  have "expr (toks_expr e w @ [new_token TK_EOF []]) = expr_loop (ast_expr e) [new_token TK_EOF []]"
    using parse_toks(3) [of e] st(1) by simp
  also have "\<dots> = Inr (ast_expr e, [new_token TK_EOF []])"
    using st(2) by (rule expr_loop_stops)
  finally have p: "expr (toks_expr e w @ [new_token TK_EOF []]) =
      Inr (ast_expr e, [new_token TK_EOF []])" .
  have "eval (ast_expr e) = value_expr e"
    using eval_ast(3) [of e] assms(1,3) by simp
  with t p show ?thesis by blast
qed

theorem parse_well_formed_witness:
  "(\<exists>toks node. tokenize ''2+3*4'' = Inr toks \<and>
      expr toks = Inr (node, [new_token TK_EOF []]) \<and> eval node = Some 14) \<and>
   (\<exists>toks node. tokenize ''8-3-2'' = Inr toks \<and>
      expr toks = Inr (node, [new_token TK_EOF []]) \<and> eval node = Some 3) \<and>
   (\<exists>toks node. tokenize ''(2+3)*4'' = Inr toks \<and>
      expr toks = Inr (node, [new_token TK_EOF []]) \<and> eval node = Some 20) \<and>
   (\<exists>toks node. tokenize '' 7 /2 '' = Inr toks \<and>
      expr toks = Inr (node, [new_token TK_EOF []]) \<and> eval node = Some 3)"
  using parse_well_formed [of "EOp (EMul (MPrim (PNum [] ''2''))) [] Plus (MOp (MPrim (PNum [] ''3'')) [] Times (PNum [] ''4''))" "[]"]
    parse_well_formed [of "EOp (EOp (EMul (MPrim (PNum [] ''8''))) [] Minus (MPrim (PNum [] ''3''))) [] Minus (MPrim (PNum [] ''2''))" "[]"]
    parse_well_formed [of "EMul (MOp (MPrim (PParen [] (EOp (EMul (MPrim (PNum [] ''2''))) [] Plus (MPrim (PNum [] ''3''))) [])) [] Times (PNum [] ''4''))" "[]"]
    parse_well_formed [of "EMul (MOp (MPrim (PNum '' '' ''7'')) '' '' Over (PNum [] ''2''))" "'' ''"]
  by (simp add: isdigit_def isspace_def decimal_def digit_val_def arith_def tdiv_def)

text \<open>
  The claim as written fails on a literal that does not fit \<open>int\<close>: the input
  \<open>2147483648\<close> is well formed and its value is 2147483648, but the tree of the parser
  holds \<open>- 2147483648\<close>.
\<close>

theorem large_literal_value_lost:
  "wf_expr (EMul (MPrim (PNum [] ''2147483648''))) \<and>
   text_expr (EMul (MPrim (PNum [] ''2147483648''))) = ''2147483648'' \<and>
   value_expr (EMul (MPrim (PNum [] ''2147483648''))) = Some 2147483648 \<and>
   tokenize ''2147483648'' =
     Inr [\<lparr>kind = TK_NUM, val = 2147483648, str = ''2147483648''\<rparr>,
          \<lparr>kind = TK_EOF, val = 0, str = []\<rparr>] \<and>
   expr [\<lparr>kind = TK_NUM, val = 2147483648, str = ''2147483648''\<rparr>,
         \<lparr>kind = TK_EOF, val = 0, str = []\<rparr>] =
     Inr (new_num 2147483648, [\<lparr>kind = TK_EOF, val = 0, str = []\<rparr>]) \<and>
   eval (new_num 2147483648) = Some (- 2147483648)"
proof -
  have t: "tokenize ''2147483648'' =
     Inr [\<lparr>kind = TK_NUM, val = 2147483648, str = ''2147483648''\<rparr>,
          \<lparr>kind = TK_EOF, val = 0, str = []\<rparr>]"
    by code_simp
  have e: "expr [\<lparr>kind = TK_NUM, val = 2147483648, str = ''2147483648''\<rparr>,
         \<lparr>kind = TK_EOF, val = 0, str = []\<rparr>] =
     Inr (new_num 2147483648, [\<lparr>kind = TK_EOF, val = 0, str = []\<rparr>])"
    by code_simp
  show ?thesis
    by (simp add: t e isdigit_def decimal_def digit_val_def)
qed

text \<open>
  C2. The instructions \<open>gen\<close> writes for a node push exactly one value and take none
  from outside: whatever the number \<open>d\<close> of values already pushed, also \<open>0\<close>, their
  stack effect is \<open>d + 1\<close> and no \<open>pop\<close> goes below the starting level. On the
  machine, the run either stops in the divide error of \<open>idiv\<close> (exactly when the tree
  has no value) or ends with the value of the tree on top of the stack it started
  with, which is otherwise as it was; so the code of the root leaves exactly one
  value, the result.
\<close>

theorem gen_pushes_one_value:
  "depth (gen node) d = Some (Suc d) \<and>
   (case value64 node of
      None \<Rightarrow> exec (gen node) m = Inl divide_error
    | Some v \<Rightarrow> (\<exists>m'. exec (gen node) m = Inr m' \<and> stack m' = v # stack m))"
  using depth_gen [of node d] exec_gen [of node m] by simp

theorem gen_pushes_one_value_witness:
  "depth (gen (new_binary ND_ADD (new_num 2) (new_binary ND_MUL (new_num 3) (new_num 4)))) 0 =
     Some 1 \<and>
   (\<exists>m'. exec (gen (new_binary ND_ADD (new_num 2) (new_binary ND_MUL (new_num 3) (new_num 4))))
            \<lparr>rax = 0, rdi = 0, rdx = 0, stack = []\<rparr> = Inr m' \<and> stack m' = [14]) \<and>
   exec (gen (new_binary ND_DIV (new_num 1) (new_num 0))) \<lparr>rax = 0, rdi = 0, rdx = 0, stack = []\<rparr> =
     Inl divide_error"
proof -
  have v: "value64 (new_binary ND_ADD (new_num 2) (new_binary ND_MUL (new_num 3) (new_num 4))) =
      Some 14"
    "value64 (new_binary ND_DIV (new_num 1) (new_num 0)) = None"
    by (simp_all add: binop64_def)
  have a: "depth (gen (new_binary ND_ADD (new_num 2) (new_binary ND_MUL (new_num 3) (new_num 4)))) 0 =
        Some (Suc 0) \<and>
      (\<exists>m'. exec (gen (new_binary ND_ADD (new_num 2) (new_binary ND_MUL (new_num 3) (new_num 4))))
            \<lparr>rax = 0, rdi = 0, rdx = 0, stack = []\<rparr> = Inr m' \<and>
          stack m' = 14 # stack \<lparr>rax = 0, rdi = 0, rdx = 0, stack = []\<rparr>)"
    using gen_pushes_one_value
        [of "new_binary ND_ADD (new_num 2) (new_binary ND_MUL (new_num 3) (new_num 4))" 0
          "\<lparr>rax = 0, rdi = 0, rdx = 0, stack = []\<rparr>"]
    by (simp only: v option.case)
  have b: "depth (gen (new_binary ND_DIV (new_num 1) (new_num 0))) 0 = Some (Suc 0) \<and>
      exec (gen (new_binary ND_DIV (new_num 1) (new_num 0))) \<lparr>rax = 0, rdi = 0, rdx = 0, stack = []\<rparr> =
        Inl divide_error"
    using gen_pushes_one_value
        [of "new_binary ND_DIV (new_num 1) (new_num 0)" 0
          "\<lparr>rax = 0, rdi = 0, rdx = 0, stack = []\<rparr>"]
    by (simp only: v option.case)
  show ?thesis
    using a b by (simp del: gen.simps exec.simps depth.simps)
qed

text \<open>
  C3. \<open>tokenize\<close> is total. On an input made of lexable characters only it returns a
  token sequence that is the one described for the input (\<open>lexes\<close>): it is not empty,
  its last token is the end-of-input token and no other token is one. On any other
  input it stops with the "cannot tokenize" error located at the first character that
  is not lexable, whose offset is the length of the lexable prefix.
\<close>

theorem tokenize_total:
  "(list_all lexable s \<longrightarrow>
      (\<exists>toks. tokenize s = Inr toks \<and> lexes s toks \<and> toks \<noteq> [] \<and>
         kind (last toks) = TK_EOF \<and> list_all (\<lambda>t. kind t \<noteq> TK_EOF) (butlast toks))) \<and>
   (\<not> list_all lexable s \<longrightarrow>
      tokenize s = Inl (error_at (dropWhile lexable s) UnrecognizedCharacter) \<and>
      pos s (dropWhile lexable s) = length (takeWhile lexable s) \<and>
      \<not> lexable (hd (dropWhile lexable s)))"
proof (intro conjI impI)
  assume "list_all lexable s"
  from tokenize_loop_accepts [OF this] obtain toks where
    t: "tokenize_loop s = Inr toks" and l: "lexes s toks" by auto
  from lexes_last [OF l] t l
  show "\<exists>toks. tokenize s = Inr toks \<and> lexes s toks \<and> toks \<noteq> [] \<and>
         kind (last toks) = TK_EOF \<and> list_all (\<lambda>t. kind t \<noteq> TK_EOF) (butlast toks)"
    by (simp add: tokenize_def)
next
  assume "\<not> list_all lexable s"
  then show "tokenize s = Inl (error_at (dropWhile lexable s) UnrecognizedCharacter)"
    by (simp add: tokenize_def tokenize_loop_rejects)
next
  have "length s = length (takeWhile lexable s) + length (dropWhile lexable s)"
    by (metis length_append takeWhile_dropWhile_id)
  then show "pos s (dropWhile lexable s) = length (takeWhile lexable s)"
    by (simp add: pos_def)
next
  assume "\<not> list_all lexable s"
  then have "dropWhile lexable s \<noteq> []"
    by (simp add: list_all_iff)
  then show "\<not> lexable (hd (dropWhile lexable s))"
    by (rule hd_dropWhile)
qed

theorem tokenize_total_witness:
  "(\<exists>toks. tokenize ''12 +3'' = Inr toks \<and> lexes ''12 +3'' toks \<and> toks \<noteq> [] \<and>
         kind (last toks) = TK_EOF \<and> list_all (\<lambda>t. kind t \<noteq> TK_EOF) (butlast toks)) \<and>
   tokenize ''1+a2'' = Inl (error_at ''a2'' UnrecognizedCharacter) \<and>
   pos ''1+a2'' ''a2'' = 2"
proof -
  have a: "list_all lexable ''12 +3''"
    by (simp add: lexable_def isspace_def isdigit_def)
  have b: "\<not> list_all lexable ''1+a2''" "dropWhile lexable ''1+a2'' = ''a2''"
    "takeWhile lexable ''1+a2'' = ''1+''"
    by (simp_all add: lexable_def isspace_def isdigit_def)
  show ?thesis
    using tokenize_total [of "''12 +3''"] tokenize_total [of "''1+a2''"] a b
    by simp
qed

text \<open>
  C4. For a division node \<open>gen\<close> writes, after the code of the operands, \<open>pop rdi\<close>,
  \<open>pop rax\<close>, \<open>cqo\<close>, \<open>idiv rdi\<close> and \<open>push rax\<close>. With the divisor \<open>b\<close> and the
  dividend \<open>a\<close> on the stack, \<open>cqo\<close> sign-extends \<open>rax\<close> into \<open>rdx:rax\<close> and \<open>idiv\<close>
  leaves the quotient of the signed values truncated toward zero, unless the divisor
  is zero or the quotient overflows. The input \<open>7/2\<close> compiles to this code, written
  out below, and the function returns with 3 in \<open>rax\<close>.
\<close>

theorem division_truncates:
  fixes a b :: "64 word"
  shows
  "gen (new_binary ND_DIV lhs rhs) =
     gen lhs @ gen rhs @ [Pop RDI, Pop RAX, Cqo, Idiv RDI, Push RAX] \<and>
   (sint b \<noteq> 0 \<and> \<not> (sint a = - (2 ^ 63) \<and> sint b = - 1) \<longrightarrow>
      exec [Pop RDI, Pop RAX, Cqo, Idiv RDI, Push RAX] (m\<lparr>stack := b # a # stk\<rparr>) =
        Inr (m\<lparr>rax := word_of_int (tdiv (sint a) (sint b)), rdi := b,
               rdx := word_of_int (sint a - tdiv (sint a) (sint b) * sint b),
               stack := word_of_int (tdiv (sint a) (sint b)) # stk\<rparr>)) \<and>
   main [prog, ''7/2''] =
     Exited 0 (assembly (new_binary ND_DIV (new_num 7) (new_num 2))) None \<and>
   assembly (new_binary ND_DIV (new_num 7) (new_num 2)) =
     line ''.intel_syntax noprefix'' @ line ''.global main'' @ line ''main:'' @
     line ''    push 7'' @ line ''    push 2'' @ line ''    pop rdi'' @ line ''    pop rax'' @
     line ''    cqo'' @ line ''    idiv rdi'' @ line ''    push rax'' @ line ''    pop rax'' @
     line (CHR 0x09 # ''ret '') \<and>
   exec (body (new_binary ND_DIV (new_num 7) (new_num 2))) (m\<lparr>stack := []\<rparr>) =
     Inr (m\<lparr>rax := 3, rdi := 2, rdx := 1, stack := []\<rparr>)"
proof (intro conjI impI)
  show "gen (new_binary ND_DIV lhs rhs) =
     gen lhs @ gen rhs @ [Pop RDI, Pop RAX, Cqo, Idiv RDI, Push RAX]"
    by simp
next
  assume "sint b \<noteq> 0 \<and> \<not> (sint a = - (2 ^ 63) \<and> sint b = - 1)"
  then show "exec [Pop RDI, Pop RAX, Cqo, Idiv RDI, Push RAX] (m\<lparr>stack := b # a # stk\<rparr>) =
        Inr (m\<lparr>rax := word_of_int (tdiv (sint a) (sint b)), rdi := b,
               rdx := word_of_int (sint a - tdiv (sint a) (sint b) * sint b),
               stack := word_of_int (tdiv (sint a) (sint b)) # stk\<rparr>)"
    by (intro division_code) simp_all
next
  have t: "tokenize ''7/2'' =
      Inr [\<lparr>kind = TK_NUM, val = 7, str = ''7/2''\<rparr>,
           \<lparr>kind = TK_RESERVED, val = 0, str = ''/2''\<rparr>,
           \<lparr>kind = TK_NUM, val = 2, str = ''2''\<rparr>,
           \<lparr>kind = TK_EOF, val = 0, str = []\<rparr>]"
    by code_simp
  have e: "expr [\<lparr>kind = TK_NUM, val = 7, str = ''7/2''\<rparr>,
           \<lparr>kind = TK_RESERVED, val = 0, str = ''/2''\<rparr>,
           \<lparr>kind = TK_NUM, val = 2, str = ''2''\<rparr>,
           \<lparr>kind = TK_EOF, val = 0, str = []\<rparr>] =
      Inr (new_binary ND_DIV (new_num 7) (new_num 2), [\<lparr>kind = TK_EOF, val = 0, str = []\<rparr>])"
    by code_simp
  show "main [prog, ''7/2''] =
     Exited 0 (assembly (new_binary ND_DIV (new_num 7) (new_num 2))) None"
    by (simp add: main_argv2 t e)
next
  show "assembly (new_binary ND_DIV (new_num 7) (new_num 2)) =
     line ''.intel_syntax noprefix'' @ line ''.global main'' @ line ''main:'' @
     line ''    push 7'' @ line ''    push 2'' @ line ''    pop rdi'' @ line ''    pop rax'' @
     line ''    cqo'' @ line ''    idiv rdi'' @ line ''    push rax'' @ line ''    pop rax'' @
     line (CHR 0x09 # ''ret '')"
    by code_simp
next
  show "exec (body (new_binary ND_DIV (new_num 7) (new_num 2))) (m\<lparr>stack := []\<rparr>) =
     Inr (m\<lparr>rax := 3, rdi := 2, rdx := 1, stack := []\<rparr>)"
    by (simp add: body_def tdiv_def Let_def)
qed

theorem division_truncates_witness:
  "exec [Pop RDI, Pop RAX, Cqo, Idiv RDI, Push RAX] \<lparr>rax = 0, rdi = 0, rdx = 0, stack = [2, - 7]\<rparr> =
     Inr \<lparr>rax = - 3, rdi = 2, rdx = - 1, stack = [- 3]\<rparr>"
proof -
  have s: "sint (- 7 :: 64 word) = - 7" "sint (2 :: 64 word) = 2"
    by simp_all
  have "exec [Pop RDI, Pop RAX, Cqo, Idiv RDI, Push RAX]
          (\<lparr>rax = 0, rdi = 0, rdx = 0, stack = []\<rparr>\<lparr>stack := [2, - 7]\<rparr>) =
        Inr (\<lparr>rax = 0, rdi = 0, rdx = 0, stack = []\<rparr>
               \<lparr>rax := word_of_int (tdiv (sint (- 7 :: 64 word)) (sint (2 :: 64 word))), rdi := 2,
                rdx := word_of_int (sint (- 7 :: 64 word) -
                         tdiv (sint (- 7 :: 64 word)) (sint (2 :: 64 word)) * sint (2 :: 64 word)),
                stack := [word_of_int (tdiv (sint (- 7 :: 64 word)) (sint (2 :: 64 word)))]\<rparr>)"
    using division_truncates
      [where a = "- 7" and b = 2 and m = "\<lparr>rax = 0, rdi = 0, rdx = 0, stack = []\<rparr>"
        and stk = "[]"]
    by (simp only: s) simp
  then show ?thesis
    by (simp add: s tdiv_def del: exec.simps)
qed

text \<open>
  C5. \<open>main\<close> never calls \<open>at_eof\<close>: once \<open>expr\<close> has returned a tree, the tokens left
  at the cursor play no part. Whatever they are, the program exits with status 0 and
  writes the assembly of the tree: the three header lines, the instructions of \<open>gen\<close>
  for the tree, \<open>pop rax\<close> and \<open>ret\<close>. For \<open>1+2)\<close> and \<open>1 2\<close> the cursor is left on a
  token that is not the end of the input, and the program writes, line by line, the
  code of \<open>1+2\<close> and of \<open>1\<close>, the same output as for the inputs \<open>1+2\<close> and \<open>1\<close>.
\<close>

theorem trailing_tokens_ignored:
  "(tokenize s = Inr toks \<and> expr toks = Inr (node, rest) \<longrightarrow>
      main [prog, s] = Exited 0 (assembly node) None) \<and>
   (\<exists>toks' rest'. tokenize ''1+2)'' = Inr toks' \<and>
      expr toks' = Inr (new_binary ND_ADD (new_num 1) (new_num 2), rest') \<and>
      at_eof rest' = Inr False) \<and>
   main [prog, ''1+2)''] = Exited 0 (assembly (new_binary ND_ADD (new_num 1) (new_num 2))) None \<and>
   main [prog, ''1+2)''] = main [prog, ''1+2''] \<and>
   (\<exists>toks' rest'. tokenize ''1 2'' = Inr toks' \<and> expr toks' = Inr (new_num 1, rest') \<and>
      at_eof rest' = Inr False) \<and>
   main [prog, ''1 2''] = Exited 0 (assembly (new_num 1)) None \<and>
   main [prog, ''1 2''] = main [prog, ''1''] \<and>
   (tokenize s = Inr toks \<and> expr toks = Inr (node, rest) \<longrightarrow>
      main [prog, s] =
        Exited 0
          (line ''.intel_syntax noprefix'' @ line ''.global main'' @ line ''main:'' @
           concat (map asm (gen node)) @ line ''    pop rax'' @ line (CHR 0x09 # ''ret ''))
          None) \<and>
   main [prog, ''1+2)''] =
     Exited 0
       (line ''.intel_syntax noprefix'' @ line ''.global main'' @ line ''main:'' @
        line ''    push 1'' @ line ''    push 2'' @ line ''    pop rdi'' @ line ''    pop rax'' @
        line ''    add rax, rdi'' @ line ''    push rax'' @ line ''    pop rax'' @
        line (CHR 0x09 # ''ret ''))
       None \<and>
   main [prog, ''1 2''] =
     Exited 0
       (line ''.intel_syntax noprefix'' @ line ''.global main'' @ line ''main:'' @
        line ''    push 1'' @ line ''    pop rax'' @ line (CHR 0x09 # ''ret ''))
       None"
proof -
  have a: "assembly n =
      line ''.intel_syntax noprefix'' @ line ''.global main'' @ line ''main:'' @
      concat (map asm (gen n)) @ line ''    pop rax'' @ line (CHR 0x09 # ''ret '')" for n
    by (simp add: assembly_def body_def)
  have a1: "assembly (new_binary ND_ADD (new_num 1) (new_num 2)) =
        line ''.intel_syntax noprefix'' @ line ''.global main'' @ line ''main:'' @
        line ''    push 1'' @ line ''    push 2'' @ line ''    pop rdi'' @ line ''    pop rax'' @
        line ''    add rax, rdi'' @ line ''    push rax'' @ line ''    pop rax'' @
        line (CHR 0x09 # ''ret '')"
    by code_simp
  have a2: "assembly (new_num 1) =
        line ''.intel_syntax noprefix'' @ line ''.global main'' @ line ''main:'' @
        line ''    push 1'' @ line ''    pop rax'' @ line (CHR 0x09 # ''ret '')"
    by code_simp
  have t1: "tokenize ''1+2)'' =
      Inr [\<lparr>kind = TK_NUM, val = 1, str = ''1+2)''\<rparr>,
           \<lparr>kind = TK_RESERVED, val = 0, str = ''+2)''\<rparr>,
           \<lparr>kind = TK_NUM, val = 2, str = ''2)''\<rparr>,
           \<lparr>kind = TK_RESERVED, val = 0, str = '')''\<rparr>,
           \<lparr>kind = TK_EOF, val = 0, str = []\<rparr>]"
    by code_simp
  have e1: "expr [\<lparr>kind = TK_NUM, val = 1, str = ''1+2)''\<rparr>,
           \<lparr>kind = TK_RESERVED, val = 0, str = ''+2)''\<rparr>,
           \<lparr>kind = TK_NUM, val = 2, str = ''2)''\<rparr>,
           \<lparr>kind = TK_RESERVED, val = 0, str = '')''\<rparr>,
           \<lparr>kind = TK_EOF, val = 0, str = []\<rparr>] =
      Inr (new_binary ND_ADD (new_num 1) (new_num 2),
           [\<lparr>kind = TK_RESERVED, val = 0, str = '')''\<rparr>, \<lparr>kind = TK_EOF, val = 0, str = []\<rparr>])"
    by code_simp
  have t2: "tokenize ''1 2'' =
      Inr [\<lparr>kind = TK_NUM, val = 1, str = ''1 2''\<rparr>,
           \<lparr>kind = TK_NUM, val = 2, str = ''2''\<rparr>,
           \<lparr>kind = TK_EOF, val = 0, str = []\<rparr>]"
    by code_simp
  have e2: "expr [\<lparr>kind = TK_NUM, val = 1, str = ''1 2''\<rparr>,
           \<lparr>kind = TK_NUM, val = 2, str = ''2''\<rparr>,
           \<lparr>kind = TK_EOF, val = 0, str = []\<rparr>] =
      Inr (new_num 1, [\<lparr>kind = TK_NUM, val = 2, str = ''2''\<rparr>, \<lparr>kind = TK_EOF, val = 0, str = []\<rparr>])"
    by code_simp
  have t3: "tokenize ''1+2'' =
      Inr [\<lparr>kind = TK_NUM, val = 1, str = ''1+2''\<rparr>,
           \<lparr>kind = TK_RESERVED, val = 0, str = ''+2''\<rparr>,
           \<lparr>kind = TK_NUM, val = 2, str = ''2''\<rparr>,
           \<lparr>kind = TK_EOF, val = 0, str = []\<rparr>]"
    by code_simp
  have e3: "expr [\<lparr>kind = TK_NUM, val = 1, str = ''1+2''\<rparr>,
           \<lparr>kind = TK_RESERVED, val = 0, str = ''+2''\<rparr>,
           \<lparr>kind = TK_NUM, val = 2, str = ''2''\<rparr>,
           \<lparr>kind = TK_EOF, val = 0, str = []\<rparr>] =
      Inr (new_binary ND_ADD (new_num 1) (new_num 2), [\<lparr>kind = TK_EOF, val = 0, str = []\<rparr>])"
    by code_simp
  have t4: "tokenize ''1'' =
      Inr [\<lparr>kind = TK_NUM, val = 1, str = ''1''\<rparr>, \<lparr>kind = TK_EOF, val = 0, str = []\<rparr>]"
    by code_simp
  have e4: "expr [\<lparr>kind = TK_NUM, val = 1, str = ''1''\<rparr>, \<lparr>kind = TK_EOF, val = 0, str = []\<rparr>] =
      Inr (new_num 1, [\<lparr>kind = TK_EOF, val = 0, str = []\<rparr>])"
    by code_simp
  have g: "tokenize s = Inr toks \<and> expr toks = Inr (node, rest) \<longrightarrow>
      main [prog, s] = Exited 0 (assembly node) None"
    by (simp add: main_argv2)
  have g': "tokenize s = Inr toks \<and> expr toks = Inr (node, rest) \<longrightarrow>
      main [prog, s] =
        Exited 0
          (line ''.intel_syntax noprefix'' @ line ''.global main'' @ line ''main:'' @
           concat (map asm (gen node)) @ line ''    pop rax'' @ line (CHR 0x09 # ''ret ''))
          None"
    using g by (simp only: a)
  have m1: "main [prog, ''1+2)''] =
      Exited 0 (assembly (new_binary ND_ADD (new_num 1) (new_num 2))) None"
    by (simp add: main_argv2 t1 e1)
  have m2: "main [prog, ''1 2''] = Exited 0 (assembly (new_num 1)) None"
    by (simp add: main_argv2 t2 e2)
  have m3: "main [prog, ''1+2''] =
      Exited 0 (assembly (new_binary ND_ADD (new_num 1) (new_num 2))) None"
    by (simp add: main_argv2 t3 e3)
  have m4: "main [prog, ''1''] = Exited 0 (assembly (new_num 1)) None"
    by (simp add: main_argv2 t4 e4)
  have x1: "\<exists>toks' rest'. tokenize ''1+2)'' = Inr toks' \<and>
      expr toks' = Inr (new_binary ND_ADD (new_num 1) (new_num 2), rest') \<and>
      at_eof rest' = Inr False"
    by (simp add: t1 e1)
  have x2: "\<exists>toks' rest'. tokenize ''1 2'' = Inr toks' \<and> expr toks' = Inr (new_num 1, rest') \<and>
      at_eof rest' = Inr False"
    by (simp add: t2 e2)
  have n1: "main [prog, ''1+2)''] =
     Exited 0
       (line ''.intel_syntax noprefix'' @ line ''.global main'' @ line ''main:'' @
        line ''    push 1'' @ line ''    push 2'' @ line ''    pop rdi'' @ line ''    pop rax'' @
        line ''    add rax, rdi'' @ line ''    push rax'' @ line ''    pop rax'' @
        line (CHR 0x09 # ''ret ''))
       None"
    by (simp only: m1 a1)
  have n2: "main [prog, ''1 2''] =
     Exited 0
       (line ''.intel_syntax noprefix'' @ line ''.global main'' @ line ''main:'' @
        line ''    push 1'' @ line ''    pop rax'' @ line (CHR 0x09 # ''ret ''))
       None"
    by (simp only: m2 a2)
  from g x1 m1 m3 x2 m2 m4 g' n1 n2 show ?thesis
    by (intro conjI) simp_all
qed

theorem trailing_tokens_ignored_witness:
  "main [''9cc'', ''1 2''] =
     Exited 0
       (line ''.intel_syntax noprefix'' @ line ''.global main'' @ line ''main:'' @
        line ''    push 1'' @ line ''    pop rax'' @ line (CHR 0x09 # ''ret ''))
       None"
proof -
  have a2: "assembly (new_num 1) =
        line ''.intel_syntax noprefix'' @ line ''.global main'' @ line ''main:'' @
        line ''    push 1'' @ line ''    pop rax'' @ line (CHR 0x09 # ''ret '')"
    by code_simp
  have t2: "tokenize ''1 2'' =
      Inr [\<lparr>kind = TK_NUM, val = 1, str = ''1 2''\<rparr>,
           \<lparr>kind = TK_NUM, val = 2, str = ''2''\<rparr>,
           \<lparr>kind = TK_EOF, val = 0, str = []\<rparr>]"
    by code_simp
  have e2: "expr [\<lparr>kind = TK_NUM, val = 1, str = ''1 2''\<rparr>,
           \<lparr>kind = TK_NUM, val = 2, str = ''2''\<rparr>,
           \<lparr>kind = TK_EOF, val = 0, str = []\<rparr>] =
      Inr (new_num 1, [\<lparr>kind = TK_NUM, val = 2, str = ''2''\<rparr>, \<lparr>kind = TK_EOF, val = 0, str = []\<rparr>])"
    by code_simp
  from trailing_tokens_ignored
    [where s = "''1 2''" and prog = "''9cc''" and node = "new_num 1"
      and toks = "[\<lparr>kind = TK_NUM, val = 1, str = ''1 2''\<rparr>,
           \<lparr>kind = TK_NUM, val = 2, str = ''2''\<rparr>,
           \<lparr>kind = TK_EOF, val = 0, str = []\<rparr>]"
      and rest = "[\<lparr>kind = TK_NUM, val = 2, str = ''2''\<rparr>, \<lparr>kind = TK_EOF, val = 0, str = []\<rparr>]"]
  have "tokenize ''1 2'' = Inr [\<lparr>kind = TK_NUM, val = 1, str = ''1 2''\<rparr>,
           \<lparr>kind = TK_NUM, val = 2, str = ''2''\<rparr>,
           \<lparr>kind = TK_EOF, val = 0, str = []\<rparr>] \<and>
        expr [\<lparr>kind = TK_NUM, val = 1, str = ''1 2''\<rparr>,
           \<lparr>kind = TK_NUM, val = 2, str = ''2''\<rparr>,
           \<lparr>kind = TK_EOF, val = 0, str = []\<rparr>] =
          Inr (new_num 1, [\<lparr>kind = TK_NUM, val = 2, str = ''2''\<rparr>, \<lparr>kind = TK_EOF, val = 0, str = []\<rparr>]) \<longrightarrow>
      main [''9cc'', ''1 2''] = Exited 0 (assembly (new_num 1)) None"
    by blast
  with t2 e2 have "main [''9cc'', ''1 2''] = Exited 0 (assembly (new_num 1)) None"
    by blast
  then show ?thesis by (simp only: a2)
qed

text \<open>
  C6, as the code has it. The lexer never rejects an integer literal for its size.
  The token of a maximal run of digits \<open>ds\<close> carries the result of \<open>strtol\<close>, which
  is the decimal value of \<open>ds\<close> cut at \<open>LONG_MAX\<close>, converted to the 32-bit \<open>int\<close>
  (reduced modulo \<open>2 ^ 32\<close>). When the decimal value is below \<open>2 ^ 31\<close> the token's
  value is the decimal value of the run.
\<close>

theorem literal_value:
  assumes "ds \<noteq> []" "list_all isdigit ds" "no_digit_ahead rest"
  shows "tokenize_loop (ds @ rest) =
           link \<lparr>kind = TK_NUM, val = word_of_int (min LONG_MAX (decimal ds)), str = ds @ rest\<rparr>
                (tokenize_loop rest) \<and>
         (decimal ds < 2 ^ 31 \<longrightarrow>
            sint (word_of_int (min LONG_MAX (decimal ds)) :: c_int) = decimal ds)"
proof (intro conjI impI)
  show "tokenize_loop (ds @ rest) =
           link \<lparr>kind = TK_NUM, val = word_of_int (min LONG_MAX (decimal ds)), str = ds @ rest\<rparr>
                (tokenize_loop rest)"
    by (rule tokenize_loop_literal [OF assms])
next
  assume small: "decimal ds < 2 ^ 31"
  have nonneg: "0 \<le> decimal ds" by (rule decimal_nonneg [OF assms(2)])
  from small have "min LONG_MAX (decimal ds) = decimal ds"
    by (simp add: LONG_MAX_def)
  moreover have "sint (word_of_int (decimal ds) :: c_int) = decimal ds"
    using small nonneg by (simp add: sint_sbintrunc' signed_take_bit_int_eq_self)
  ultimately show "sint (word_of_int (min LONG_MAX (decimal ds)) :: c_int) = decimal ds"
    by simp
qed

theorem literal_value_witness:
  "tokenize_loop ''2147483647+1'' =
     link \<lparr>kind = TK_NUM, val = 2147483647, str = ''2147483647+1''\<rparr> (tokenize_loop ''+1'') \<and>
   sint (2147483647 :: c_int) = 2147483647 \<and>
   tokenize_loop ''4294967297'' =
     link \<lparr>kind = TK_NUM, val = 1, str = ''4294967297''\<rparr> (tokenize_loop [])"
proof -
  have d: "decimal ''2147483647'' = 2147483647" "decimal ''4294967297'' = 4294967297"
    by (simp_all add: decimal_def digit_val_def)
  have w: "(4294967297 :: c_int) = 1"
    by simp
  show ?thesis
    using literal_value [of "''2147483647''" "''+1''"] literal_value [of "''4294967297''" "[]"] w
    by (simp add: d isdigit_def no_digit_ahead_def LONG_MAX_def del: tokenize_loop.simps)
qed

text \<open>
  The claim as written fails: the literal \<open>2147483648\<close> exceeds the range of \<open>int\<close>
  and is accepted, with the value \<open>- 2147483648\<close>.
\<close>

theorem literal_overflow_accepted:
  "tokenize ''2147483648'' =
     Inr [\<lparr>kind = TK_NUM, val = 2147483648, str = ''2147483648''\<rparr>,
          \<lparr>kind = TK_EOF, val = 0, str = []\<rparr>] \<and>
   sint (2147483648 :: c_int) = - 2147483648"
proof -
  have "tokenize ''2147483648'' =
     Inr [\<lparr>kind = TK_NUM, val = 2147483648, str = ''2147483648''\<rparr>,
          \<lparr>kind = TK_EOF, val = 0, str = []\<rparr>]"
    by code_simp
  moreover have "sint (2147483648 :: c_int) = - 2147483648"
    by simp
  ultimately show ?thesis by simp
qed

text \<open>
  C7. The input \<open>1+\<close> is rejected: \<open>expect_number\<close> finds the end-of-input token and
  reports "not a number" at offset 2, one past the \<open>+\<close>; the exit status is 1 and
  nothing is written to the standard output.
\<close>

theorem main_missing_operand:
  "main [prog, ''1+''] = Exited 1 [] (Some (report ''1+'' 2 ExpectedNumber))"
proof -
  have t: "tokenize ''1+'' =
      Inr [\<lparr>kind = TK_NUM, val = 1, str = ''1+''\<rparr>,
           \<lparr>kind = TK_RESERVED, val = 0, str = ''+''\<rparr>,
           \<lparr>kind = TK_EOF, val = 0, str = []\<rparr>]"
    by code_simp
  have e: "expr [\<lparr>kind = TK_NUM, val = 1, str = ''1+''\<rparr>,
           \<lparr>kind = TK_RESERVED, val = 0, str = ''+''\<rparr>,
           \<lparr>kind = TK_EOF, val = 0, str = []\<rparr>] = Inl (error_at [] ExpectedNumber)"
    by code_simp
  show ?thesis
    by (simp add: main_argv2 t e pos_def)
qed

text \<open>
  C8. The input \<open>(1+2\<close> is rejected: \<open>primary\<close> consumes the parenthesis and parses
  \<open>1+2\<close>, then \<open>expect\<close> finds the end-of-input token where \<open>)\<close> is required and
  reports it at offset 4, the end of the input.
\<close>

theorem main_unbalanced_paren:
  "main [prog, ''(1+2''] = Exited 1 [] (Some (report ''(1+2'' 4 (ExpectedToken CHR '')'')))"
proof -
  have t: "tokenize ''(1+2'' =
      Inr [\<lparr>kind = TK_RESERVED, val = 0, str = ''(1+2''\<rparr>,
           \<lparr>kind = TK_NUM, val = 1, str = ''1+2''\<rparr>,
           \<lparr>kind = TK_RESERVED, val = 0, str = ''+2''\<rparr>,
           \<lparr>kind = TK_NUM, val = 2, str = ''2''\<rparr>,
           \<lparr>kind = TK_EOF, val = 0, str = []\<rparr>]"
    by code_simp
  have e: "expr [\<lparr>kind = TK_RESERVED, val = 0, str = ''(1+2''\<rparr>,
           \<lparr>kind = TK_NUM, val = 1, str = ''1+2''\<rparr>,
           \<lparr>kind = TK_RESERVED, val = 0, str = ''+2''\<rparr>,
           \<lparr>kind = TK_NUM, val = 2, str = ''2''\<rparr>,
           \<lparr>kind = TK_EOF, val = 0, str = []\<rparr>] = Inl (error_at [] (ExpectedToken CHR '')''))"
    by code_simp
  show ?thesis
    by (simp add: main_argv2 t e pos_def)
qed

text \<open>
  C9. Parsing terminates. Every call of \<open>expr\<close>, \<open>expr_loop\<close>, \<open>mul\<close>, \<open>mul_loop\<close> and
  \<open>primary\<close> is in the domain of the functions, that is, the chain of calls below it is
  finite, for every token list. The cursor advances strictly: a call of \<open>expr\<close>, \<open>mul\<close>
  or \<open>primary\<close> that returns leaves a shorter cursor, and so does every \<open>consume\<close>
  that matches, which starts each further iteration of the two loops. \<open>consume\<close>
  never matches the end-of-input token. On the tokens of \<open>tokenize\<close> the parser ends
  in a reported error or in a tree with a cursor that is not NULL; it never reads
  past the end of the chain. In the relation of the calls (\<open>rel y x\<close>: the call \<open>x\<close>
  makes the call \<open>y\<close>, where \<open>Inl (Inl cur)\<close> is \<open>expr\<close> on the cursor \<open>cur\<close> and
  \<open>Inr (Inr (Inr cur))\<close> is \<open>primary\<close> on it), \<open>expr\<close> is called only by \<open>primary\<close>, on
  the cursor just past a \<open>(\<close> token that \<open>primary\<close> has consumed: the depth of the
  recursion is at most the number of these tokens.
\<close>

theorem parser_terminates:
  "expr_expr_loop_mul_mul_loop_primary_dom x \<and>
   (expr token = Inr (node, rest) \<longrightarrow> length rest < length token) \<and>
   (mul token = Inr (node, rest) \<longrightarrow> length rest < length token) \<and>
   (primary token = Inr (node, rest) \<longrightarrow> length rest < length token) \<and>
   (expr_loop node0 token = Inr (node, rest) \<longrightarrow> length rest \<le> length token) \<and>
   (mul_loop node0 token = Inr (node, rest) \<longrightarrow> length rest \<le> length token) \<and>
   (consume op token = Inr (True, rest) \<longrightarrow> length rest < length token) \<and>
   (kind tok = TK_EOF \<longrightarrow> consume op (tok # toks0) = Inr (False, tok # toks0)) \<and>
   (tokenize s = Inr toks \<longrightarrow>
      (\<exists>loc msg. expr toks = Inl (error_at loc msg)) \<or>
      (\<exists>root rest'. expr toks = Inr (root, rest') \<and> rest' \<noteq> [] \<and> length rest' < length toks)) \<and>
   (expr_expr_loop_mul_mul_loop_primary_rel (Inl (Inl cur)) caller \<longrightarrow>
      (\<exists>tok'. caller = Inr (Inr (Inr (tok' # cur))) \<and> kind tok' = TK_RESERVED \<and>
         str0 tok' = CHR ''(''))"
proof (intro conjI impI)
  show "expr_expr_loop_mul_mul_loop_primary_dom x"
    by (rule parser_calls_terminate)
next
  assume t: "tokenize s = Inr toks"
  from parser_keeps_eof(1) [of toks] tokenize_ends_in_eof [OF t]
  have n: "no_crash (expr toks)" by simp
  show "(\<exists>loc msg. expr toks = Inl (error_at loc msg)) \<or>
      (\<exists>root rest'. expr toks = Inr (root, rest') \<and> rest' \<noteq> [] \<and> length rest' < length toks)"
  proof (cases "expr toks")
    case (Inl a)
    with n have "a \<noteq> null_deref" by (simp add: no_crash_def)
    with Inl show ?thesis by (cases a) auto
  next
    case (Inr b)
    obtain root rest' where b: "b = (root, rest')" by (cases b) auto
    with n Inr have "rest' \<noteq> []" by (auto simp: no_crash_def ends_in_eof_def)
    moreover from Inr b have "length rest' < length toks" by (auto dest: parse_length(1))
    ultimately show ?thesis using Inr b by simp
  qed
next
  assume "expr_expr_loop_mul_mul_loop_primary_rel (Inl (Inl cur)) caller"
  then show "\<exists>tok'. caller = Inr (Inr (Inr (tok' # cur))) \<and> kind tok' = TK_RESERVED \<and>
         str0 tok' = CHR ''(''"
    by (rule expr_called_from)
qed (auto dest: parse_length consume_True)

theorem parser_terminates_witness:
  "length [\<lparr>kind = TK_EOF, val = 0, str = []\<rparr>] <
     length [\<lparr>kind = TK_NUM, val = 1, str = ''1+2''\<rparr>,
             \<lparr>kind = TK_RESERVED, val = 0, str = ''+2''\<rparr>,
             \<lparr>kind = TK_NUM, val = 2, str = ''2''\<rparr>,
             \<lparr>kind = TK_EOF, val = 0, str = []\<rparr>] \<and>
   consume CHR ''+'' [\<lparr>kind = TK_EOF, val = 0, str = []\<rparr>] =
     Inr (False, [\<lparr>kind = TK_EOF, val = 0, str = []\<rparr>]) \<and>
   ((\<exists>loc msg. expr [\<lparr>kind = TK_NUM, val = 1, str = ''1+2''\<rparr>,
             \<lparr>kind = TK_RESERVED, val = 0, str = ''+2''\<rparr>,
             \<lparr>kind = TK_NUM, val = 2, str = ''2''\<rparr>,
             \<lparr>kind = TK_EOF, val = 0, str = []\<rparr>] = Inl (error_at loc msg)) \<or>
    (\<exists>root rest'. expr [\<lparr>kind = TK_NUM, val = 1, str = ''1+2''\<rparr>,
             \<lparr>kind = TK_RESERVED, val = 0, str = ''+2''\<rparr>,
             \<lparr>kind = TK_NUM, val = 2, str = ''2''\<rparr>,
             \<lparr>kind = TK_EOF, val = 0, str = []\<rparr>] = Inr (root, rest') \<and> rest' \<noteq> [] \<and>
        length rest' < length [\<lparr>kind = TK_NUM, val = 1, str = ''1+2''\<rparr>,
             \<lparr>kind = TK_RESERVED, val = 0, str = ''+2''\<rparr>,
             \<lparr>kind = TK_NUM, val = 2, str = ''2''\<rparr>,
             \<lparr>kind = TK_EOF, val = 0, str = []\<rparr>])) \<and>
   expr_expr_loop_mul_mul_loop_primary_rel
     (Inl (Inl [\<lparr>kind = TK_EOF, val = 0, str = []\<rparr>]))
     (Inr (Inr (Inr [\<lparr>kind = TK_RESERVED, val = 0, str = ''(''\<rparr>,
                     \<lparr>kind = TK_EOF, val = 0, str = []\<rparr>]))) \<and>
   (\<exists>tok'. [\<lparr>kind = TK_RESERVED, val = 0, str = ''(''\<rparr>, \<lparr>kind = TK_EOF, val = 0, str = []\<rparr>] =
        tok' # [\<lparr>kind = TK_EOF, val = 0, str = []\<rparr>] \<and>
      kind tok' = TK_RESERVED \<and> str0 tok' = CHR ''('')"
proof -
  have r: "expr_expr_loop_mul_mul_loop_primary_rel
     (Inl (Inl [\<lparr>kind = TK_EOF, val = 0, str = []\<rparr>]))
     (Inr (Inr (Inr [\<lparr>kind = TK_RESERVED, val = 0, str = ''(''\<rparr>,
                     \<lparr>kind = TK_EOF, val = 0, str = []\<rparr>])))"
    by (rule expr_expr_loop_mul_mul_loop_primary_rel.intros(13)
          [where b = "(True, [\<lparr>kind = TK_EOF, val = 0, str = []\<rparr>])" and x = True])
       (simp_all add: str0_def)
  have t: "tokenize ''1+2'' =
      Inr [\<lparr>kind = TK_NUM, val = 1, str = ''1+2''\<rparr>,
           \<lparr>kind = TK_RESERVED, val = 0, str = ''+2''\<rparr>,
           \<lparr>kind = TK_NUM, val = 2, str = ''2''\<rparr>,
           \<lparr>kind = TK_EOF, val = 0, str = []\<rparr>]"
    by code_simp
  have e: "expr [\<lparr>kind = TK_NUM, val = 1, str = ''1+2''\<rparr>,
           \<lparr>kind = TK_RESERVED, val = 0, str = ''+2''\<rparr>,
           \<lparr>kind = TK_NUM, val = 2, str = ''2''\<rparr>,
           \<lparr>kind = TK_EOF, val = 0, str = []\<rparr>] =
      Inr (new_binary ND_ADD (new_num 1) (new_num 2), [\<lparr>kind = TK_EOF, val = 0, str = []\<rparr>])"
    by code_simp
  show ?thesis
    using parser_terminates
      [where token = "[\<lparr>kind = TK_NUM, val = 1, str = ''1+2''\<rparr>,
           \<lparr>kind = TK_RESERVED, val = 0, str = ''+2''\<rparr>,
           \<lparr>kind = TK_NUM, val = 2, str = ''2''\<rparr>,
           \<lparr>kind = TK_EOF, val = 0, str = []\<rparr>]"
        and node = "new_binary ND_ADD (new_num 1) (new_num 2)"
        and rest = "[\<lparr>kind = TK_EOF, val = 0, str = []\<rparr>]"
        and tok = "\<lparr>kind = TK_EOF, val = 0, str = []\<rparr>" and toks0 = "[]"
        and op = "CHR ''+''" and s = "''1+2''"
        and cur = "[\<lparr>kind = TK_EOF, val = 0, str = []\<rparr>]"
        and caller = "Inr (Inr (Inr [\<lparr>kind = TK_RESERVED, val = 0, str = ''(''\<rparr>,
                     \<lparr>kind = TK_EOF, val = 0, str = []\<rparr>]))"
        and toks = "[\<lparr>kind = TK_NUM, val = 1, str = ''1+2''\<rparr>,
           \<lparr>kind = TK_RESERVED, val = 0, str = ''+2''\<rparr>,
           \<lparr>kind = TK_NUM, val = 2, str = ''2''\<rparr>,
           \<lparr>kind = TK_EOF, val = 0, str = []\<rparr>]"]
    by (simp add: t e r)
qed

text \<open>
  C10. For the empty input and for an input of white space only, \<open>tokenize\<close> returns
  the end-of-input token alone, and the program stops with the "not a number" error
  at the offset that is the length of the input, exit status 1 and nothing on the
  standard output.
\<close>

theorem blank_input_rejected:
  assumes "list_all isspace s"
  shows "tokenize s = Inr [new_token TK_EOF []] \<and>
         main [prog, s] = Exited 1 [] (Some (report s (length s) ExpectedNumber))"
proof -
  have "expr [new_token TK_EOF []] = Inl (error_at [] ExpectedNumber)"
    by (simp add: expr.simps mul.simps primary.simps new_token_def)
  then show ?thesis
    using tokenize_blank [OF assms] by (simp add: main_argv2 pos_def)
qed

theorem blank_input_rejected_witness:
  "tokenize [] = Inr [new_token TK_EOF []] \<and>
   main [''9cc'', []] = Exited 1 [] (Some (report [] 0 ExpectedNumber)) \<and>
   tokenize [CHR '' '', CHR 0x09] = Inr [new_token TK_EOF []] \<and>
   main [''9cc'', [CHR '' '', CHR 0x09]] =
     Exited 1 [] (Some (report [CHR '' '', CHR 0x09] 2 ExpectedNumber))"
  using blank_input_rejected [of "[]" "''9cc''"]
    blank_input_rejected [of "[CHR '' '', CHR 0x09]" "''9cc''"]
  by (simp add: isspace_def)

end
